theory Spec2Isabelle
  imports Complex_Main "HOL-Library.Word" "HOL-Library.Signed_Division"
begin

section \<open>threads.cc: the data model\<close>

text \<open>
  The C++ types of the program: \<open>int\<close> is a 32-bit word read as two's complement
  (\<open>sint\<close>, compared with \<open><s\<close>), \<open>unsigned\<close> a 32-bit word, \<open>uint64_t\<close> and
  \<open>int64_t\<close> 64-bit words. Arithmetic on words wraps around.
\<close>

type_synonym c_int = "32 word"
type_synonym c_unsigned = "32 word"
type_synonym uint64_t = "64 word"
type_synonym int64_t = "64 word"

text \<open>\<open>struct arg_t\<close>: the command-line arguments after \<open>parse_args\<close>.\<close>

record arg_t =
  num_ints :: c_int
  num_threads :: c_int
  behavior :: string
  usage :: bool

text \<open>
  \<open>parse_args\<close>: \<open>getopt\<close> hands over the options of the command line one by one;
  \<open>atoi\<close> belongs to the C library and is a parameter. An option \<open>getopt\<close> does not
  know matches no case of the \<open>switch\<close> and changes nothing. \<open>default_args\<close> are the
  member initialisers of \<open>arg_t\<close>.
\<close>

datatype cmd_option = Opt_n string | Opt_t string | Opt_b string | Opt_h | Opt_unknown

definition default_args :: arg_t where
  "default_args = \<lparr>num_ints = 64, num_threads = 1, behavior = ''counter'', usage = False\<rparr>"

fun parse_args :: "(string \<Rightarrow> c_int) \<Rightarrow> cmd_option list \<Rightarrow> arg_t \<Rightarrow> arg_t" where
  "parse_args atoi [] args = args"
| "parse_args atoi (Opt_n optarg # opts) args = parse_args atoi opts (args\<lparr>num_ints := atoi optarg\<rparr>)"
| "parse_args atoi (Opt_t optarg # opts) args = parse_args atoi opts (args\<lparr>num_threads := atoi optarg\<rparr>)"
| "parse_args atoi (Opt_b optarg # opts) args = parse_args atoi opts (args\<lparr>behavior := optarg\<rparr>)"
| "parse_args atoi (Opt_h # opts) args = parse_args atoi opts (args\<lparr>usage := True\<rparr>)"
| "parse_args atoi (Opt_unknown # opts) args = parse_args atoi opts args"

subsection \<open>Threads and interleavings\<close>

text \<open>
  A \<open>std::thread\<close> object is either default-constructed (not a thread) or runs one
  invocation \<open>task(i)\<close>: it then carries the argument \<open>i\<close> it was created with and the
  local state of that invocation (program point and local variables).
\<close>

datatype 'l thread = Not_a_thread | Thread c_int 'l

text \<open>
  The \<open>std::function<void(int)> task\<close> handed to \<open>run_timed_test\<close>: \<open>start i\<close> is the
  local state in which \<open>task(i)\<close> begins, \<open>act me l g\<close> is one atomic step of the thread
  with identity \<open>me\<close> (its index in the \<open>threads\<close> array) from local state \<open>l\<close> and
  shared state \<open>g\<close>, \<open>None\<close> when the thread cannot move (it has returned, or it waits
  for a mutex that is held), and \<open>finished l\<close> holds when the invocation has returned
  (a returned invocation takes no further step).
  Every step makes at most one access to shared memory.
\<close>

record ('l, 'g) task =
  start :: "c_int \<Rightarrow> 'l"
  act :: "nat \<Rightarrow> 'l \<Rightarrow> 'g \<Rightarrow> ('l \<times> 'g) option"
  finished :: "'l \<Rightarrow> bool"

text \<open>
  Program points of \<open>run_timed_test\<close> itself (the launching thread): before the first
  clock reading, in the launch loop with loop variable \<open>i\<close>, in the join loop at array
  position \<open>j\<close>, before the second clock reading, and returned. \<open>M_undefined\<close> stands
  for the two ways the function can leave defined behaviour: an array of negative length,
  and \<open>join\<close> on an object that is not a thread.
\<close>

datatype main_pc = M_start | M_launch c_int | M_join nat | M_stop | M_returned | M_undefined

record ('l, 'g) sys =
  pc_main :: main_pc
  threads :: "'l thread list"
  shared :: 'g
  launched :: "c_int list"
  now :: real
  t1 :: real
  t2 :: real
  time_span :: "real option"

text \<open>
  A schedule is a list of events: the clock advances by \<open>d\<close> seconds, the launching
  thread takes a step, or the thread at position \<open>k\<close> of the array takes a step.
\<close>

datatype event = Tick real | Main | Worker nat

definition init_sys :: "'g \<Rightarrow> ('l, 'g) sys" where
  "init_sys g0 =
     \<lparr>pc_main = M_start, threads = [], shared = g0, launched = [],
      now = 0, t1 = 0, t2 = 0, time_span = None\<rparr>"

text \<open>
  \<open>run_timed_test\<close>, one step of the launching thread at a time. \<open>time_span\<close> is the
  value printed as "Total time", \<open>t2 - t1\<close> in seconds (the conversion to \<open>double\<close> is
  not modelled). \<open>launched\<close> is a history variable that no step reads: the arguments
  of the \<open>std::thread(task, i)\<close> constructions so far, in order.
\<close>

definition run_timed_test :: "arg_t \<Rightarrow> ('l, 'g) task \<Rightarrow> ('l, 'g) sys \<Rightarrow> ('l, 'g) sys option" where
  "run_timed_test args T s =
     (case pc_main s of
        M_start \<Rightarrow>
          if sint (num_threads args) < 0 then Some (s\<lparr>pc_main := M_undefined\<rparr>)
          else Some (s\<lparr>t1 := now s,
                       threads := replicate (nat (sint (num_threads args))) Not_a_thread,
                       pc_main := M_launch 0\<rparr>)
      | M_launch i \<Rightarrow>
          if i <s num_threads args
          then Some (s\<lparr>threads := (threads s)[nat (sint i) := Thread i (start T i)],
                       launched := launched s @ [i],
                       pc_main := M_launch (i + 1)\<rparr>)
          else Some (s\<lparr>pc_main := M_join 0\<rparr>)
      | M_join j \<Rightarrow>
          if j < length (threads s)
          then (case threads s ! j of
                  Not_a_thread \<Rightarrow> Some (s\<lparr>pc_main := M_undefined\<rparr>)
                | Thread a l \<Rightarrow>
                    if finished T l then Some (s\<lparr>pc_main := M_join (Suc j)\<rparr>) else None)
          else Some (s\<lparr>pc_main := M_stop\<rparr>)
      | M_stop \<Rightarrow>
          Some (s\<lparr>t2 := now s, time_span := Some (now s - t1 s), pc_main := M_returned\<rparr>)
      | M_returned \<Rightarrow> None
      | M_undefined \<Rightarrow> None)"

definition worker_step :: "('l, 'g) task \<Rightarrow> nat \<Rightarrow> ('l, 'g) sys \<Rightarrow> ('l, 'g) sys option" where
  "worker_step T k s =
     (if k < length (threads s)
      then (case threads s ! k of
              Not_a_thread \<Rightarrow> None
            | Thread a l \<Rightarrow>
                if finished T l then None
                else (case act T k l (shared s) of
                        None \<Rightarrow> None
                      | Some (l', g') \<Rightarrow>
                          Some (s\<lparr>threads := (threads s)[k := Thread a l'], shared := g'\<rparr>)))
      else None)"

fun step :: "arg_t \<Rightarrow> ('l, 'g) task \<Rightarrow> event \<Rightarrow> ('l, 'g) sys \<Rightarrow> ('l, 'g) sys option" where
  "step args T (Tick d) s = (if 0 \<le> d then Some (s\<lparr>now := now s + d\<rparr>) else None)"
| "step args T Main s = run_timed_test args T s"
| "step args T (Worker k) s = worker_step T k s"

fun exec :: "arg_t \<Rightarrow> ('l, 'g) task \<Rightarrow> event list \<Rightarrow> ('l, 'g) sys \<Rightarrow> ('l, 'g) sys option" where
  "exec args T [] s = Some s"
| "exec args T (e # es) s =
     (case step args T e s of None \<Rightarrow> None | Some s' \<Rightarrow> exec args T es s')"

text \<open>The steps of threads in a schedule (the clock's ticks are not steps of the program).\<close>

fun thread_steps :: "event list \<Rightarrow> nat" where
  "thread_steps [] = 0"
| "thread_steps (Tick d # es) = thread_steps es"
| "thread_steps (e # es) = Suc (thread_steps es)"


text \<open>The states some interleaving of the launching thread and the workers reaches.\<close>

inductive reach :: "arg_t \<Rightarrow> ('l, 'g) task \<Rightarrow> 'g \<Rightarrow> ('l, 'g) sys \<Rightarrow> bool"
  for args :: arg_t and T :: "('l, 'g) task" and g0 :: 'g where
  reach_init: "reach args T g0 (init_sys g0)"
| reach_step: "reach args T g0 s \<Longrightarrow> step args T e s = Some s' \<Longrightarrow> reach args T g0 s'"

definition returned :: "('l, 'g) sys \<Rightarrow> bool" where
  "returned s = (pc_main s = M_returned)"

text \<open>From the state \<open>s\<close> some continuation of the schedule makes \<open>run_timed_test\<close> return.\<close>

definition can_return :: "arg_t \<Rightarrow> ('l, 'g) task \<Rightarrow> ('l, 'g) sys \<Rightarrow> bool" where
  "can_return args T s = (\<exists>es s'. exec args T es s = Some s' \<and> returned s')"

subsection \<open>The counter test\<close>

text \<open>
  Program points of the workload lambda of \<open>run_counter_test\<close>, each with the loop
  variable \<open>i\<close>: at the loop test, at the \<open>lock_guard\<close> constructor, before the read and
  before the write of \<open>counter++\<close> (a plain \<open>uint64_t\<close>: a read, an addition and a
  write; \<open>C_store\<close> carries the value read), at the closing brace that releases the
  lock, and returned.
\<close>

datatype counter_pc =
  C_loop c_int | C_lock c_int | C_load c_int | C_store c_int uint64_t | C_unlock c_int | C_done

record counter_shared =
  lock :: "nat option"
  counter :: uint64_t

fun counter_workload :: "arg_t \<Rightarrow> nat \<Rightarrow> counter_pc \<Rightarrow> counter_shared \<Rightarrow> (counter_pc \<times> counter_shared) option" where
  "counter_workload args me (C_loop i) g =
     Some (if i <s num_ints args then C_lock i else C_done, g)"
| "counter_workload args me (C_lock i) g =
     (if lock g = None then Some (C_load i, g\<lparr>lock := Some me\<rparr>) else None)"
| "counter_workload args me (C_load i) g = Some (C_store i (counter g), g)"
| "counter_workload args me (C_store i v) g = Some (C_unlock i, g\<lparr>counter := v + 1\<rparr>)"
| "counter_workload args me (C_unlock i) g = Some (C_loop (i + 1), g\<lparr>lock := None\<rparr>)"
| "counter_workload args me C_done g = None"

definition counter_task :: "arg_t \<Rightarrow> (counter_pc, counter_shared) task" where
  "counter_task args =
     \<lparr>start = (\<lambda>_. C_loop 0), act = counter_workload args, finished = (\<lambda>l. l = C_done)\<rparr>"

definition counter_init :: counter_shared where
  "counter_init = \<lparr>lock = None, counter = 0\<rparr>"

text \<open>\<open>run_counter_test\<close>: the states of \<open>run_timed_test(args, workload)\<close>.\<close>

definition run_counter_test :: "arg_t \<Rightarrow> (counter_pc, counter_shared) sys \<Rightarrow> bool" where
  "run_counter_test args s = reach args (counter_task args) counter_init s"

text \<open>The threads whose next step reads or writes \<open>counter\<close>.\<close>

definition accesses_counter :: "counter_pc thread \<Rightarrow> bool" where
  "accesses_counter th =
     (case th of Thread a (C_load i) \<Rightarrow> True | Thread a (C_store i v) \<Rightarrow> True | _ \<Rightarrow> False)"

subsection \<open>The counters test\<close>

text \<open>
  \<open>rand_r\<close> belongs to the C library, not to the program: it is a parameter of the
  model, a function from the seed to the value returned and the seed left behind. C's
  \<open>%\<close> on \<open>int\<close> truncates towards zero (\<open>smod\<close>).
\<close>

type_synonym rand_fun = "c_unsigned \<Rightarrow> c_int \<times> c_unsigned"

definition int_rem :: "c_int \<Rightarrow> c_int \<Rightarrow> c_int" where
  "int_rem a b = word_of_int (sint a smod sint b)"

text \<open>What POSIX promises of \<open>rand_r\<close>: a value between 0 and \<open>RAND_MAX\<close>.\<close>

definition rand_r_nonneg :: "rand_fun \<Rightarrow> bool" where
  "rand_r_nonneg rand_r = (\<forall>seed. 0 \<le> sint (fst (rand_r seed)))"

text \<open>A concrete generator for the examples: a linear congruential step on the seed.\<close>

definition lcg :: rand_fun where
  "lcg seed = (word_of_nat (unat seed mod 32768), seed * 1103515245 + 12345)"

text \<open>
  Program points of the workload lambda of \<open>run_counters_test\<close>: at the loop test with
  the loop variable \<open>i\<close> and the \<open>seed\<close>; before the atomic increment of
  \<open>counters[idx].counter\<close> with \<open>i\<close>, \<open>seed\<close> and \<open>idx\<close>; returned; and
  \<open>K_undefined\<close> after an access outside the array.
\<close>

datatype counters_pc =
  K_loop c_int c_unsigned | K_inc c_int c_unsigned c_int | K_done | K_undefined

record counters_shared =
  counters :: "uint64_t list"

fun counters_workload :: "rand_fun \<Rightarrow> arg_t \<Rightarrow> nat \<Rightarrow> counters_pc \<Rightarrow> counters_shared \<Rightarrow> (counters_pc \<times> counters_shared) option" where
  "counters_workload rand_r args me (K_loop i seed) g =
     Some (if i <s num_ints args
           then (case rand_r seed of (r, seed') \<Rightarrow> K_inc i seed' (int_rem r 1024))
           else K_done, g)"
| "counters_workload rand_r args me (K_inc i seed idx) g =
     (if 0 \<le> sint idx \<and> sint idx < 1024
      then Some (K_loop (i + 1) seed,
                 g\<lparr>counters := (counters g)[nat (sint idx) := counters g ! nat (sint idx) + 1]\<rparr>)
      else Some (K_undefined, g))"
| "counters_workload rand_r args me K_done g = None"
| "counters_workload rand_r args me K_undefined g = None"

definition counters_task :: "rand_fun \<Rightarrow> arg_t \<Rightarrow> (counters_pc, counters_shared) task" where
  "counters_task rand_r args =
     \<lparr>start = (\<lambda>a. K_loop 0 a), act = counters_workload rand_r args,
      finished = (\<lambda>l. l = K_done)\<rparr>"

definition counters_init :: counters_shared where
  "counters_init = \<lparr>counters = replicate 1024 0\<rparr>"

definition run_counters_test :: "rand_fun \<Rightarrow> arg_t \<Rightarrow> (counters_pc, counters_shared) sys \<Rightarrow> bool" where
  "run_counters_test rand_r args s = reach args (counters_task rand_r args) counters_init s"

subsection \<open>The queue test\<close>

text \<open>
  Program points of the workload lambda of \<open>run_queue_test\<close>. Producer (\<open>id == 0\<close>):
  at the loop test, at the \<open>lock_guard\<close> constructor, before \<open>my_queue.push(i)\<close>, at
  the brace that releases the lock, before \<open>done = true\<close>. Consumer: at the
  \<open>lock_guard\<close> constructor, at \<open>my_queue.empty()\<close> in the first condition, at the read
  of \<open>done\<close> in the first condition, at \<open>!my_queue.empty()\<close> in the second condition,
  before the three statements that take the front item, at the brace that releases the
  lock and loops, at the \<open>break\<close> that releases the lock, before the \<open>printf\<close>, before
  \<open>sum += my_sum\<close>, before \<open>count += my_count\<close>. Every thread: at the test of the
  \<open>while\<close> that waits for \<open>count\<close>, before the producer's \<open>printf\<close>, returned; and
  \<open>W_undefined\<close> after \<open>front\<close> or \<open>pop\<close> on an empty queue.
\<close>

datatype queue_pc =
  P_loop | P_lock | P_push | P_unlock | P_set_done
| Q_lock | Q_empty | Q_done | Q_else | Q_pop | Q_unlock | Q_break | Q_print | Q_add_sum | Q_add_count
| W_barrier | W_print | W_done | W_undefined

text \<open>The local variables of one invocation of the lambda.\<close>

record queue_local =
  pc :: queue_pc
  my_id :: c_int
  loop_i :: c_int
  my_sum :: int64_t
  my_count :: c_int

text \<open>The lines written to standard output.\<close>

datatype out_line = Thread_count_sum c_int c_int int64_t | Total_sum int64_t

text \<open>
  The variables the lambda captures. \<open>pushed\<close> and \<open>popped\<close> are history variables
  that no step reads: the items pushed so far, and the items popped so far, each with
  the identity of the thread that popped it.
\<close>

record queue_shared =
  qlock :: "nat option"
  my_queue :: "c_int list"
  done_flag :: bool
  sum_acc :: int64_t
  count_acc :: c_int
  stdout :: "out_line list"
  pushed :: "c_int list"
  popped :: "(nat \<times> c_int) list"

text \<open>\<open>(args.num_threads - 1) * args.num_ints\<close>, in \<open>int\<close>.\<close>

definition total_work :: "arg_t \<Rightarrow> c_int" where
  "total_work args = (num_threads args - 1) * num_ints args"

definition queue_workload :: "arg_t \<Rightarrow> nat \<Rightarrow> queue_local \<Rightarrow> queue_shared \<Rightarrow> (queue_local \<times> queue_shared) option" where
  "queue_workload args me l g =
     (case pc l of
        P_loop \<Rightarrow> Some (l\<lparr>pc := (if loop_i l <s total_work args then P_lock else P_set_done)\<rparr>, g)
      | P_lock \<Rightarrow> if qlock g = None then Some (l\<lparr>pc := P_push\<rparr>, g\<lparr>qlock := Some me\<rparr>) else None
      | P_push \<Rightarrow>
          Some (l\<lparr>pc := P_unlock\<rparr>,
                g\<lparr>my_queue := my_queue g @ [loop_i l], pushed := pushed g @ [loop_i l]\<rparr>)
      | P_unlock \<Rightarrow> Some (l\<lparr>pc := P_loop, loop_i := loop_i l + 1\<rparr>, g\<lparr>qlock := None\<rparr>)
      | P_set_done \<Rightarrow> Some (l\<lparr>pc := W_barrier\<rparr>, g\<lparr>done_flag := True\<rparr>)
      | Q_lock \<Rightarrow> if qlock g = None then Some (l\<lparr>pc := Q_empty\<rparr>, g\<lparr>qlock := Some me\<rparr>) else None
      | Q_empty \<Rightarrow> Some (l\<lparr>pc := (if my_queue g = [] then Q_done else Q_else)\<rparr>, g)
      | Q_done \<Rightarrow> Some (l\<lparr>pc := (if done_flag g then Q_break else Q_else)\<rparr>, g)
      | Q_else \<Rightarrow> Some (l\<lparr>pc := (if my_queue g \<noteq> [] then Q_pop else Q_unlock)\<rparr>, g)
      | Q_pop \<Rightarrow>
          (case my_queue g of
             [] \<Rightarrow> Some (l\<lparr>pc := W_undefined\<rparr>, g)
           | x # xs \<Rightarrow>
               Some (l\<lparr>pc := Q_unlock, my_sum := my_sum l + scast x, my_count := my_count l + 1\<rparr>,
                     g\<lparr>my_queue := xs, popped := popped g @ [(me, x)]\<rparr>))
      | Q_unlock \<Rightarrow> Some (l\<lparr>pc := Q_lock\<rparr>, g\<lparr>qlock := None\<rparr>)
      | Q_break \<Rightarrow> Some (l\<lparr>pc := Q_print\<rparr>, g\<lparr>qlock := None\<rparr>)
      | Q_print \<Rightarrow>
          Some (l\<lparr>pc := Q_add_sum\<rparr>,
                g\<lparr>stdout := stdout g @ [Thread_count_sum (my_id l) (my_count l) (my_sum l)]\<rparr>)
      | Q_add_sum \<Rightarrow> Some (l\<lparr>pc := Q_add_count\<rparr>, g\<lparr>sum_acc := sum_acc g + my_sum l\<rparr>)
      | Q_add_count \<Rightarrow> Some (l\<lparr>pc := W_barrier\<rparr>, g\<lparr>count_acc := count_acc g + my_count l\<rparr>)
      | W_barrier \<Rightarrow>
          Some (l\<lparr>pc := (if count_acc g \<noteq> total_work args then W_barrier
                          else if my_id l = 0 then W_print else W_done)\<rparr>, g)
      | W_print \<Rightarrow> Some (l\<lparr>pc := W_done\<rparr>, g\<lparr>stdout := stdout g @ [Total_sum (sum_acc g)]\<rparr>)
      | W_done \<Rightarrow> None
      | W_undefined \<Rightarrow> None)"

definition queue_start :: "c_int \<Rightarrow> queue_local" where
  "queue_start a =
     \<lparr>pc = (if a = 0 then P_loop else Q_lock), my_id = a, loop_i = 0, my_sum = 0, my_count = 0\<rparr>"

definition queue_task :: "arg_t \<Rightarrow> (queue_local, queue_shared) task" where
  "queue_task args =
     \<lparr>start = queue_start, act = queue_workload args, finished = (\<lambda>l. pc l = W_done)\<rparr>"

definition queue_init :: queue_shared where
  "queue_init =
     \<lparr>qlock = None, my_queue = [], done_flag = False, sum_acc = 0, count_acc = 0,
      stdout = [], pushed = [], popped = []\<rparr>"

definition run_queue_test :: "arg_t \<Rightarrow> (queue_local, queue_shared) sys \<Rightarrow> bool" where
  "run_queue_test args s = reach args (queue_task args) queue_init s"


subsection \<open>main\<close>

text \<open>
  What \<open>main\<close> does with the parsed arguments: print the usage message, run one of the
  three tests, or print "invalid behavior parameter" with the string.
\<close>

datatype main_action =
  Print_usage | Run_counter_test | Run_counters_test | Run_queue_test | Print_invalid_behavior string

text \<open>The last statement of \<open>main\<close>, under the comment "Run the appropriate workload".\<close>

definition run_appropriate_workload :: "arg_t \<Rightarrow> main_action" where
  "run_appropriate_workload args =
     (if behavior args = ''counter'' then Run_counter_test
      else if behavior args = ''counters'' then Run_counters_test
      else if behavior args = ''queue'' then Run_queue_test
      else Print_invalid_behavior (behavior args))"

text \<open>
  \<open>main\<close> after \<open>parse_args\<close>: what it does, and its exit status, which is 0 on both
  paths (\<open>return 0\<close> after the usage message, the end of \<open>main\<close> otherwise).
\<close>

definition main :: "arg_t \<Rightarrow> main_action \<times> int" where
  "main args =
     (if usage args then (Print_usage, 0) else (run_appropriate_workload args, 0))"

section \<open>Arguments\<close>

text \<open>\<open>parse_args\<close> stores what \<open>atoi\<close> returns, negative values included.\<close>

lemma parse_args_append:
  "parse_args atoi (opts @ opts') args = parse_args atoi opts' (parse_args atoi opts args)"
  by (induction atoi opts args rule: parse_args.induct) simp_all

lemma parse_args_last_n:
  "num_ints (parse_args atoi (opts @ [Opt_n optarg]) args) = atoi optarg"
  by (simp add: parse_args_append)

lemma parse_args_negative:
  "sint (num_ints (parse_args (\<lambda>_. - 3) [Opt_t ''4'', Opt_n ''-3''] default_args)) = - 3"
  by simp

section \<open>Executions\<close>

lemma exec_append:
  "exec args T (es @ fs) s = (case exec args T es s of None \<Rightarrow> None | Some s' \<Rightarrow> exec args T fs s')"
  by (induction es arbitrary: s) (auto split: option.splits)



lemma reach_exec:
  "reach args T g0 s \<Longrightarrow> exec args T es s = Some s' \<Longrightarrow> reach args T g0 s'"
proof (induction es arbitrary: s)
  case Nil
  then show ?case by simp
next
  case (Cons e es)
  then show ?case
    by (auto split: option.splits intro: reach_step)
qed

section \<open>The launching thread: invariant\<close>

definition is_done :: "('l, 'g) task \<Rightarrow> 'l thread \<Rightarrow> bool" where
  "is_done T th = (case th of Not_a_thread \<Rightarrow> False | Thread a l \<Rightarrow> finished T l)"

definition all_launched :: "arg_t \<Rightarrow> 'l thread list \<Rightarrow> bool" where
  "all_launched args ths =
     (0 \<le> sint (num_threads args) \<and> length ths = nat (sint (num_threads args)) \<and>
      (\<forall>k<length ths. \<exists>l. ths ! k = Thread (word_of_nat k) l))"

definition main_inv :: "arg_t \<Rightarrow> ('l, 'g) task \<Rightarrow> ('l, 'g) sys \<Rightarrow> bool" where
  "main_inv args T s =
     (case pc_main s of
        M_start \<Rightarrow> threads s = [] \<and> launched s = []
      | M_launch i \<Rightarrow>
          0 \<le> sint i \<and> sint i \<le> sint (num_threads args) \<and>
          length (threads s) = nat (sint (num_threads args)) \<and>
          (\<forall>k<length (threads s).
             if int k < sint i then (\<exists>l. threads s ! k = Thread (word_of_nat k) l)
             else threads s ! k = Not_a_thread) \<and>
          launched s = map word_of_nat [0..<nat (sint i)] \<and> t1 s \<le> now s
      | M_join j \<Rightarrow>
          all_launched args (threads s) \<and> j \<le> length (threads s) \<and>
          (\<forall>k<j. is_done T (threads s ! k)) \<and>
          launched s = map word_of_nat [0..<nat (sint (num_threads args))] \<and> t1 s \<le> now s
      | M_stop \<Rightarrow>
          all_launched args (threads s) \<and> (\<forall>k<length (threads s). is_done T (threads s ! k)) \<and>
          launched s = map word_of_nat [0..<nat (sint (num_threads args))] \<and> t1 s \<le> now s
      | M_returned \<Rightarrow>
          all_launched args (threads s) \<and> (\<forall>k<length (threads s). is_done T (threads s ! k)) \<and>
          launched s = map word_of_nat [0..<nat (sint (num_threads args))] \<and>
          t1 s \<le> t2 s \<and> time_span s = Some (t2 s - t1 s)
      | M_undefined \<Rightarrow> sint (num_threads args) < 0 \<and> threads s = [])"

lemma sint_succ: "sint (i :: 32 word) < sint (n :: 32 word) \<Longrightarrow> sint (i + 1) = sint i + 1"
proof -
  assume a: "sint i < sint n"
  have "sint n < 2 ^ 31" using sint_lt [of n] by simp
  moreover have "- (2 ^ 31) \<le> sint i" using sint_ge [of i] by simp
  ultimately show ?thesis using a
    by (simp add: sint_word_ariths signed_take_bit_int_eq_self)
qed

lemma word_of_nat_sint: "0 \<le> sint (i :: 32 word) \<Longrightarrow> word_of_nat (nat (sint i)) = i"
  by simp

lemma main_inv_init: "main_inv args T (init_sys g0)"
  by (simp add: main_inv_def init_sys_def)

lemma main_inv_tick:
  "main_inv args T s \<Longrightarrow> 0 \<le> d \<Longrightarrow> main_inv args T (s\<lparr>now := now s + d\<rparr>)"
  by (auto simp: main_inv_def split: main_pc.splits)

lemma main_inv_main:
  assumes "main_inv args T s" and "run_timed_test args T s = Some s'"
  shows "main_inv args T s'"
proof (cases "pc_main s")
  case M_start
  with assms show ?thesis
    by (auto simp: main_inv_def run_timed_test_def split: if_splits)
next
  case (M_launch i)
  show ?thesis
  proof (cases "i <s num_threads args")
    case True
    then have lt: "sint i < sint (num_threads args)" by (simp add: word_sless_alt)
    then have succ: "sint (i + 1) = sint i + 1" by (rule sint_succ)
    from assms M_launch True have s': "s' = s\<lparr>threads := (threads s)[nat (sint i) := Thread i (start T i)],
                       launched := launched s @ [i],
                       pc_main := M_launch (i + 1)\<rparr>"
      by (simp add: run_timed_test_def)
    from assms(1) M_launch have inv: "0 \<le> sint i" "length (threads s) = nat (sint (num_threads args))"
      "\<forall>k<length (threads s).
             if int k < sint i then (\<exists>l. threads s ! k = Thread (word_of_nat k) l)
             else threads s ! k = Not_a_thread"
      "launched s = map word_of_nat [0..<nat (sint i)]" "t1 s \<le> now s"
      by (simp_all add: main_inv_def)
    have nat_succ: "nat (sint i + 1) = Suc (nat (sint i))" using inv(1) by simp
    have wi: "word_of_nat (nat (sint i)) = i" using inv(1) by simp
    show ?thesis
      unfolding s' main_inv_def using inv lt succ nat_succ wi
      by (auto simp: nth_list_update)
  next
    case False
    with assms M_launch show ?thesis
      by (auto simp: main_inv_def run_timed_test_def all_launched_def word_sless_alt)
  qed
next
  case (M_join j)
  with assms show ?thesis
    by (auto simp: main_inv_def run_timed_test_def all_launched_def is_done_def less_Suc_eq
        split: if_splits thread.splits)
next
  case M_stop
  with assms show ?thesis
    by (auto simp: main_inv_def run_timed_test_def)
next
  case M_returned
  with assms show ?thesis by (simp add: run_timed_test_def)
next
  case M_undefined
  with assms show ?thesis by (simp add: run_timed_test_def)
qed

lemma main_inv_thread:
  assumes "main_inv args T s" and "k < length (threads s)" and "threads s ! k = Thread a l"
  shows "a = word_of_nat k" and "pc_main s = M_launch i \<Longrightarrow> int k < sint i"
proof -
  show "a = word_of_nat k"
  proof (cases "pc_main s")
    case (M_launch i)
    with assms(1) have "if int k < sint i then (\<exists>l. threads s ! k = Thread (word_of_nat k) l)
             else threads s ! k = Not_a_thread"
      using assms(2) by (simp add: main_inv_def)
    with assms(3) show ?thesis by (auto split: if_splits)
  qed (use assms in \<open>auto simp: main_inv_def all_launched_def\<close>)
  show "int k < sint i" if "pc_main s = M_launch i"
  proof -
    from assms(1) that have "if int k < sint i then (\<exists>l. threads s ! k = Thread (word_of_nat k) l)
             else threads s ! k = Not_a_thread"
      using assms(2) by (simp add: main_inv_def)
    with assms(3) show ?thesis by (auto split: if_splits)
  qed
qed

lemma main_inv_worker:
  assumes "main_inv args T s" and "worker_step T k s = Some s'"
  shows "main_inv args T s'"
proof -
  from assms(2) obtain a l l' g' where k: "k < length (threads s)" "threads s ! k = Thread a l"
    "\<not> finished T l" and s': "s' = s\<lparr>threads := (threads s)[k := Thread a l'], shared := g'\<rparr>"
    by (auto simp: worker_step_def split: if_splits thread.splits option.splits)
  note th = main_inv_thread [OF assms(1) k(1) k(2)]
  show ?thesis
    using assms(1) k th unfolding s' main_inv_def all_launched_def is_done_def
    by (auto simp: nth_list_update split: main_pc.splits)
qed

lemma reach_main_inv: "reach args T g0 s \<Longrightarrow> main_inv args T s"
proof (induction rule: reach.induct)
  case reach_init
  show ?case by (rule main_inv_init)
next
  case (reach_step s e s')
  then show ?case
    by (cases e) (auto intro: main_inv_tick main_inv_main main_inv_worker split: if_splits)
qed


lemma workload_invariant:
  assumes r: "reach args T g0 s"
    and init: "\<And>n. P (replicate n Not_a_thread) g0"
    and launch: "\<And>ths g k. P ths g \<Longrightarrow> k < length ths \<Longrightarrow> int k < sint (num_threads args) \<Longrightarrow>
        ths ! k = Not_a_thread \<Longrightarrow> P (ths[k := Thread (word_of_nat k) (start T (word_of_nat k))]) g"
    and work: "\<And>ths g k l l' g'. P ths g \<Longrightarrow> k < length ths \<Longrightarrow>
        int (length ths) = sint (num_threads args) \<Longrightarrow>
        ths ! k = Thread (word_of_nat k) l \<Longrightarrow> \<not> finished T l \<Longrightarrow> act T k l g = Some (l', g') \<Longrightarrow>
        P (ths[k := Thread (word_of_nat k) l']) g'"
  shows "P (threads s) (shared s)"
proof -
  have "P (threads s) (shared s) \<and> (pc_main s = M_start \<longrightarrow> shared s = g0)"
    using r
  proof (induction rule: reach.induct)
    case reach_init
    show ?case using init [of 0] by (simp add: init_sys_def)
  next
    case (reach_step s e s')
    then have mi: "main_inv args T s" by (simp add: reach_main_inv)
    from reach_step have P: "P (threads s) (shared s)" and g: "pc_main s = M_start \<Longrightarrow> shared s = g0"
      by simp_all
    show ?case
    proof (cases e)
      case (Tick d)
      with reach_step.hyps(2) P g show ?thesis by (auto split: if_splits)
    next
      case Main
      with reach_step.hyps(2) have m: "run_timed_test args T s = Some s'" by simp
      show ?thesis
      proof (cases "pc_main s")
        case M_start
        with m g init [of 0] init mi show ?thesis
          by (auto simp: run_timed_test_def main_inv_def split: if_splits)
      next
        case (M_launch i)
        show ?thesis
        proof (cases "i <s num_threads args")
          case True
          from mi M_launch have i: "0 \<le> sint i" "length (threads s) = nat (sint (num_threads args))"
            and nat: "\<forall>k<length (threads s).
             if int k < sint i then (\<exists>l. threads s ! k = Thread (word_of_nat k) l)
             else threads s ! k = Not_a_thread"
            by (simp_all add: main_inv_def)
          from True have lt: "sint i < sint (num_threads args)" by (simp add: word_sless_alt)
          with i have k: "nat (sint i) < length (threads s)" by simp
          with nat have "threads s ! nat (sint i) = Not_a_thread" by auto
          from launch [OF P k _ this] lt i(1)
          have "P ((threads s)[nat (sint i) := Thread i (start T i)]) (shared s)" by simp
          with m M_launch True show ?thesis by (auto simp: run_timed_test_def)
        next
          case False
          with m M_launch P show ?thesis by (auto simp: run_timed_test_def)
        qed
      next
        case (M_join j)
        with m P show ?thesis
          by (auto simp: run_timed_test_def split: if_splits thread.splits)
      next
        case M_stop
        with m P show ?thesis by (auto simp: run_timed_test_def)
      next
        case M_returned
        with m show ?thesis by (simp add: run_timed_test_def)
      next
        case M_undefined
        with m show ?thesis by (simp add: run_timed_test_def)
      qed
    next
      case (Worker k)
      with reach_step.hyps(2) have "worker_step T k s = Some s'" by simp
      then obtain a l l' g' where k: "k < length (threads s)" "threads s ! k = Thread a l"
        "\<not> finished T l" "act T k l (shared s) = Some (l', g')"
        and s': "s' = s\<lparr>threads := (threads s)[k := Thread a l'], shared := g'\<rparr>"
        by (auto simp: worker_step_def split: if_splits thread.splits option.splits)
      have a: "a = word_of_nat k" by (rule main_inv_thread(1) [OF mi k(1) k(2)])
      have ne: "pc_main s \<noteq> M_start" using mi k(1) by (auto simp: main_inv_def)
      have "int (length (threads s)) = sint (num_threads args)"
        using mi k(1) by (auto simp: main_inv_def all_launched_def split: main_pc.splits)
      from work [OF P k(1) this k(2) [unfolded a] k(3) k(4)] ne show ?thesis
        by (simp add: s' a)
    qed
  qed
  then show ?thesis by simp
qed

section \<open>Reaching the return\<close>

lemma can_leave_launch:
  assumes "reach args T g0 s" and "pc_main s = M_launch i"
  shows "\<exists>es s'. exec args T es s = Some s' \<and> pc_main s' = M_join 0"
  using assms
proof (induction "nat (sint (num_threads args) - sint i)" arbitrary: s i rule: less_induct)
  case less
  show ?case
  proof (cases "i <s num_threads args")
    case True
    then have lt: "sint i < sint (num_threads args)" by (simp add: word_sless_alt)
    define s1 where "s1 = s\<lparr>threads := (threads s)[nat (sint i) := Thread i (start T i)],
                       launched := launched s @ [i], pc_main := M_launch (i + 1)\<rparr>"
    have st: "step args T Main s = Some s1"
      using less.prems(2) True by (simp add: run_timed_test_def s1_def)
    then have r1: "reach args T g0 s1" using less.prems(1) by (rule reach_step [rotated])
    have pc1: "pc_main s1 = M_launch (i + 1)" by (simp add: s1_def)
    have "nat (sint (num_threads args) - sint (i + 1)) < nat (sint (num_threads args) - sint i)"
      using lt sint_succ [OF lt] by simp
    from less.hyps [OF this r1 pc1] obtain es s' where
      "exec args T es s1 = Some s'" "pc_main s' = M_join 0" by blast
    with st have "exec args T (Main # es) s = Some s'" by simp
    with \<open>pc_main s' = M_join 0\<close> show ?thesis by blast
  next
    case False
    then have "exec args T [Main] s = Some (s\<lparr>pc_main := M_join 0\<rparr>)"
      using less.prems(2) by (simp add: run_timed_test_def)
    then show ?thesis by fastforce
  qed
qed

lemma can_finish_joins:
  assumes "pc_main s = M_join j" and "j \<le> length (threads s)"
    and "\<forall>k<length (threads s). is_done T (threads s ! k)"
  shows "can_return args T s"
  using assms
proof (induction "length (threads s) - j" arbitrary: s j)
  case 0
  then have j: "j = length (threads s)" by simp
  define s1 where "s1 = s\<lparr>pc_main := M_stop\<rparr>"
  define s2 where "s2 = s1\<lparr>t2 := now s1, time_span := Some (now s1 - t1 s1), pc_main := M_returned\<rparr>"
  have "exec args T [Main, Main] s = Some s2"
    using 0(2) j by (simp add: run_timed_test_def s1_def s2_def)
  moreover have "returned s2" by (simp add: returned_def s2_def)
  ultimately show ?case unfolding can_return_def by blast
next
  case (Suc n)
  then have j: "j < length (threads s)" by simp
  with Suc.prems(3) have "is_done T (threads s ! j)" by simp
  then obtain a l where th: "threads s ! j = Thread a l" "finished T l"
    by (cases "threads s ! j") (auto simp: is_done_def)
  define s1 where "s1 = s\<lparr>pc_main := M_join (Suc j)\<rparr>"
  have st: "step args T Main s = Some s1"
    using Suc.prems(1) j th by (simp add: run_timed_test_def s1_def)
  have "can_return args T s1"
  proof (rule Suc.hyps(1))
    show "n = length (threads s1) - Suc j" using Suc.hyps(2) by (simp add: s1_def)
    show "pc_main s1 = M_join (Suc j)" by (simp add: s1_def)
    show "Suc j \<le> length (threads s1)" using j by (simp add: s1_def)
    show "\<forall>k<length (threads s1). is_done T (threads s1 ! k)"
      using Suc.prems(3) by (simp add: s1_def)
  qed
  then obtain es s' where "exec args T es s1 = Some s'" "returned s'"
    unfolding can_return_def by blast
  with st have "exec args T (Main # es) s = Some s'" by simp
  with \<open>returned s'\<close> show ?case unfolding can_return_def by blast
qed

lemma can_finish_work_wf:
  assumes P: "\<And>s. reach args T g0 s \<Longrightarrow> P (threads s) (shared s)"
    and progress: "\<And>ths g. P ths g \<Longrightarrow> all_launched args ths \<Longrightarrow>
        \<not> (\<forall>k<length ths. is_done T (ths ! k)) \<Longrightarrow>
        \<exists>k l l' g'. k < length ths \<and> ths ! k = Thread (word_of_nat k) l \<and> \<not> finished T l \<and>
          act T k l g = Some (l', g') \<and>
          (m (ths[k := Thread (word_of_nat k) l']) g', m ths g) \<in> r"
    and wf: "wf r"
    and r: "reach args T g0 s" and pc: "pc_main s = M_join j"
  shows "\<exists>es s'. exec args T es s = Some s' \<and> pc_main s' = M_join j \<and>
           (\<forall>k<length (threads s'). is_done T (threads s' ! k))"
  using wf r pc
proof (induction "m (threads s) (shared s)" arbitrary: s rule: wf_induct_rule)
  case less
  show ?case
  proof (cases "\<forall>k<length (threads s). is_done T (threads s ! k)")
    case True
    then have "exec args T [] s = Some s \<and> pc_main s = M_join j \<and>
        (\<forall>k<length (threads s). is_done T (threads s ! k))"
      using less.prems(2) by simp
    then show ?thesis by blast
  next
    case False
    have al: "all_launched args (threads s)"
      using reach_main_inv [OF less.prems(1)] less.prems(2) by (simp add: main_inv_def)
    from progress [OF P [OF less.prems(1)] al False] obtain k l l' g' where
      k: "k < length (threads s)" "threads s ! k = Thread (word_of_nat k) l" "\<not> finished T l"
      "act T k l (shared s) = Some (l', g')"
      and dec: "(m ((threads s)[k := Thread (word_of_nat k) l']) g', m (threads s) (shared s)) \<in> r"
      by blast
    define s1 where "s1 = s\<lparr>threads := (threads s)[k := Thread (word_of_nat k) l'], shared := g'\<rparr>"
    have st: "step args T (Worker k) s = Some s1"
      using k by (simp add: worker_step_def s1_def)
    then have r1: "reach args T g0 s1" using less.prems(1) by (rule reach_step [rotated])
    have pc1: "pc_main s1 = M_join j" using less.prems(2) by (simp add: s1_def)
    have "(m (threads s1) (shared s1), m (threads s) (shared s)) \<in> r" using dec by (simp add: s1_def)
    from less.hyps [OF this r1 pc1] obtain es s' where
      e: "exec args T es s1 = Some s'" "pc_main s' = M_join j"
      "\<forall>k<length (threads s'). is_done T (threads s' ! k)" by blast
    from e(1) st have "exec args T (Worker k # es) s = Some s'" by simp
    with e(2,3) show ?thesis by blast
  qed
qed

lemma can_return_wf:
  assumes P: "\<And>s. reach args T g0 s \<Longrightarrow> P (threads s) (shared s)"
    and progress: "\<And>ths g. P ths g \<Longrightarrow> all_launched args ths \<Longrightarrow>
        \<not> (\<forall>k<length ths. is_done T (ths ! k)) \<Longrightarrow>
        \<exists>k l l' g'. k < length ths \<and> ths ! k = Thread (word_of_nat k) l \<and> \<not> finished T l \<and>
          act T k l g = Some (l', g') \<and>
          (m (ths[k := Thread (word_of_nat k) l']) g', m ths g) \<in> r"
    and wf: "wf r"
    and r: "reach args T g0 s" and nt: "0 \<le> sint (num_threads args)"
  shows "can_return args T s"
proof -
  have join: "can_return args T s" if r: "reach args T g0 s" and pc: "pc_main s = M_join j" for s j
  proof -
    from can_finish_work_wf [of args T g0 P m r, OF P progress wf r pc] obtain es s' where
      e: "exec args T es s = Some s'" "pc_main s' = M_join j"
      "\<forall>k<length (threads s'). is_done T (threads s' ! k)" by blast
    have "reach args T g0 s'" using r e(1) by (rule reach_exec)
    then have "j \<le> length (threads s')"
      using reach_main_inv [of args T g0 s'] e(2) by (simp add: main_inv_def)
    from can_finish_joins [OF e(2) this e(3)] obtain fs s'' where
      "exec args T fs s' = Some s''" "returned s''" unfolding can_return_def by blast
    with e(1) have "exec args T (es @ fs) s = Some s''" by (simp add: exec_append)
    with \<open>returned s''\<close> show ?thesis unfolding can_return_def by blast
  qed
  have launch: "can_return args T s" if r: "reach args T g0 s" and pc: "pc_main s = M_launch i" for s i
  proof -
    from can_leave_launch [OF r pc] obtain es s' where
      e: "exec args T es s = Some s'" "pc_main s' = M_join 0" by blast
    have "reach args T g0 s'" using r e(1) by (rule reach_exec)
    from join [OF this e(2)] obtain fs s'' where
      "exec args T fs s' = Some s''" "returned s''" unfolding can_return_def by blast
    with e(1) have "exec args T (es @ fs) s = Some s''" by (simp add: exec_append)
    with \<open>returned s''\<close> show ?thesis unfolding can_return_def by blast
  qed
  show ?thesis
  proof (cases "pc_main s")
    case M_start
    define s1 where "s1 = s\<lparr>t1 := now s,
                       threads := replicate (nat (sint (num_threads args))) Not_a_thread,
                       pc_main := M_launch 0\<rparr>"
    have st: "step args T Main s = Some s1"
      using M_start nt by (simp add: run_timed_test_def s1_def)
    then have "reach args T g0 s1" using r by (rule reach_step [rotated])
    moreover have "pc_main s1 = M_launch 0" by (simp add: s1_def)
    ultimately obtain es s' where "exec args T es s1 = Some s'" "returned s'"
      using launch unfolding can_return_def by blast
    with st have "exec args T (Main # es) s = Some s'" by simp
    with \<open>returned s'\<close> show ?thesis unfolding can_return_def by blast
  next
    case (M_launch i)
    with r show ?thesis by (rule launch)
  next
    case (M_join j)
    with r show ?thesis by (rule join)
  next
    case M_stop
    define s2 where "s2 = s\<lparr>t2 := now s, time_span := Some (now s - t1 s), pc_main := M_returned\<rparr>"
    have "exec args T [Main] s = Some s2" using M_stop by (simp add: run_timed_test_def s2_def)
    moreover have "returned s2" by (simp add: returned_def s2_def)
    ultimately show ?thesis unfolding can_return_def by blast
  next
    case M_returned
    then have "exec args T [] s = Some s \<and> returned s" by (simp add: returned_def)
    then show ?thesis unfolding can_return_def by blast
  next
    case M_undefined
    with reach_main_inv [OF r] nt show ?thesis by (simp add: main_inv_def)
  qed
qed


lemma can_return_generic:
  assumes P: "\<And>s. reach args T g0 s \<Longrightarrow> P (threads s) (shared s)"
    and progress: "\<And>ths g. P ths g \<Longrightarrow> all_launched args ths \<Longrightarrow>
        \<not> (\<forall>k<length ths. is_done T (ths ! k)) \<Longrightarrow>
        \<exists>k l l' g'. k < length ths \<and> ths ! k = Thread (word_of_nat k) l \<and> \<not> finished T l \<and>
          act T k l g = Some (l', g') \<and>
          m (ths[k := Thread (word_of_nat k) l']) g' < (m ths g :: nat)"
    and r: "reach args T g0 s" and nt: "0 \<le> sint (num_threads args)"
  shows "can_return args T s"
proof (rule can_return_wf [where P = P and m = m and r = less_than and ?g0.0 = g0])
  show "P (threads s) (shared s)" if "reach args T g0 s" for s using that by (rule P)
  show "wf less_than" by simp
  show "reach args T g0 s" by fact
  show "0 \<le> sint (num_threads args)" by fact
next
  fix ths g
  assume "P ths g" "all_launched args ths" "\<not> (\<forall>k<length ths. is_done T (ths ! k))"
  from progress [OF this]
  show "\<exists>k l l' g'. k < length ths \<and> ths ! k = Thread (word_of_nat k) l \<and> \<not> finished T l \<and>
          act T k l g = Some (l', g') \<and>
          (m (ths[k := Thread (word_of_nat k) l']) g', m ths g) \<in> less_than"
    by simp
qed

section \<open>The counter test: invariant\<close>

fun c_iters :: "arg_t \<Rightarrow> counter_pc thread \<Rightarrow> int" where
  "c_iters args Not_a_thread = 0"
| "c_iters args (Thread a (C_loop i)) = sint i"
| "c_iters args (Thread a (C_lock i)) = sint i"
| "c_iters args (Thread a (C_load i)) = sint i"
| "c_iters args (Thread a (C_store i v)) = sint i"
| "c_iters args (Thread a (C_unlock i)) = sint i + 1"
| "c_iters args (Thread a C_done) = max 0 (sint (num_ints args))"

fun c_holds :: "counter_pc thread \<Rightarrow> bool" where
  "c_holds (Thread a (C_load i)) = True"
| "c_holds (Thread a (C_store i v)) = True"
| "c_holds (Thread a (C_unlock i)) = True"
| "c_holds _ = False"

fun c_ok :: "arg_t \<Rightarrow> uint64_t \<Rightarrow> counter_pc thread \<Rightarrow> bool" where
  "c_ok args c Not_a_thread = True"
| "c_ok args c (Thread a (C_loop i)) = (0 \<le> sint i \<and> sint i \<le> max 0 (sint (num_ints args)))"
| "c_ok args c (Thread a (C_lock i)) = (0 \<le> sint i \<and> sint i < sint (num_ints args))"
| "c_ok args c (Thread a (C_load i)) = (0 \<le> sint i \<and> sint i < sint (num_ints args))"
| "c_ok args c (Thread a (C_store i v)) = (0 \<le> sint i \<and> sint i < sint (num_ints args) \<and> v = c)"
| "c_ok args c (Thread a (C_unlock i)) = (0 \<le> sint i \<and> sint i < sint (num_ints args))"
| "c_ok args c (Thread a C_done) = True"

definition counter_inv :: "arg_t \<Rightarrow> counter_pc thread list \<Rightarrow> counter_shared \<Rightarrow> bool" where
  "counter_inv args ths g =
     ((\<forall>k<length ths. c_ok args (counter g) (ths ! k)) \<and>
      (\<forall>k<length ths. c_holds (ths ! k) \<longleftrightarrow> lock g = Some k) \<and>
      (\<forall>k. lock g = Some k \<longrightarrow> k < length ths) \<and>
      uint (counter g) = sum_list (map (c_iters args) ths))"

lemma sum_list_map_update:
  fixes f :: "'a \<Rightarrow> int"
  shows "k < length xs \<Longrightarrow> sum_list (map f (xs[k := y])) = sum_list (map f xs) - f (xs ! k) + f y"
  by (induction xs arbitrary: k) (auto split: nat.splits)

lemma sum_list_map_le:
  fixes f :: "'a \<Rightarrow> int"
  shows "(\<And>x. x \<in> set xs \<Longrightarrow> f x \<le> m) \<Longrightarrow> sum_list (map f xs) \<le> int (length xs) * m"
proof (induction xs)
  case Nil
  show ?case by simp
next
  case (Cons a xs)
  then have "f a \<le> m" and "sum_list (map f xs) \<le> int (length xs) * m" by simp_all
  then show ?case by (simp add: algebra_simps)
qed


lemma uint64_succ: "uint (c :: 64 word) < 2 ^ 63 \<Longrightarrow> uint (c + 1) = uint c + 1"
  by (simp add: uint_word_ariths take_bit_int_eq_self)

lemma c_iters_le:
  assumes "c_ok args c th"
  shows "c_iters args th \<le> max 0 (sint (num_ints args))"
proof (cases th)
  case Not_a_thread
  then show ?thesis by simp
next
  case (Thread a l)
  with assms show ?thesis by (cases l) auto
qed

lemma counter_inv_init: "counter_inv args (replicate n Not_a_thread) counter_init"
  by (simp add: counter_inv_def counter_init_def sum_list_replicate)

lemma counter_inv_launch:
  assumes "counter_inv args ths g" and "k < length ths" and "ths ! k = Not_a_thread"
  shows "counter_inv args (ths[k := Thread a (C_loop 0)]) g"
  using assms unfolding counter_inv_def
  by (auto simp: nth_list_update sum_list_map_update)


lemma c_ok_other:
  assumes "\<not> c_holds th" and "c_ok args c th"
  shows "c_ok args c' th"
proof (cases th)
  case Not_a_thread
  then show ?thesis by simp
next
  case (Thread a l)
  with assms show ?thesis by (cases l) auto
qed

lemma counter_sum_bound:
  assumes "counter_inv args ths g" and "int (length ths) = sint (num_threads args)"
  shows "uint (counter g) \<le> 2 ^ 62"
proof -
  have "sum_list (map (c_iters args) ths) \<le> int (length ths) * max 0 (sint (num_ints args))"
  proof (rule sum_list_map_le)
    fix x assume "x \<in> set ths"
    then obtain k where "k < length ths" "ths ! k = x" by (auto simp: in_set_conv_nth)
    with assms(1) have "c_ok args (counter g) x" by (auto simp: counter_inv_def)
    then show "c_iters args x \<le> max 0 (sint (num_ints args))" by (rule c_iters_le)
  qed
  also have "\<dots> \<le> 2 ^ 31 * 2 ^ 31"
  proof (rule mult_mono)
    show "int (length ths) \<le> 2 ^ 31" using assms(2) sint_lt [of "num_threads args"] by simp
    show "max 0 (sint (num_ints args)) \<le> 2 ^ 31" using sint_lt [of "num_ints args"] by simp
  qed simp_all
  finally show ?thesis using assms(1) by (simp add: counter_inv_def)
qed

lemma counter_inv_work:
  assumes inv: "counter_inv args ths g" and k: "k < length ths"
    and len: "int (length ths) = sint (num_threads args)"
    and th: "ths ! k = Thread a l"
    and act: "counter_workload args k l g = Some (l', g')"
  shows "counter_inv args (ths[k := Thread a l']) g'"
proof -
  from inv k th have ok: "c_ok args (counter g) (Thread a l)"
    and holds: "c_holds (Thread a l) \<longleftrightarrow> lock g = Some k"
    and others: "\<And>u. u < length ths \<Longrightarrow> u \<noteq> k \<Longrightarrow> c_ok args (counter g) (ths ! u)"
    and excl: "\<And>u. u < length ths \<Longrightarrow> c_holds (ths ! u) \<longleftrightarrow> lock g = Some u"
    and total: "uint (counter g) = sum_list (map (c_iters args) ths)"
    and owner: "\<And>u. lock g = Some u \<Longrightarrow> u < length ths"
    by (auto simp: counter_inv_def)
  show ?thesis
  proof (cases l)
    case (C_loop i)
    with act ok others excl total k th holds owner show ?thesis
      by (auto simp: counter_inv_def nth_list_update sum_list_map_update word_sless_alt
          split: if_splits)
  next
    case (C_lock i)
    with act ok others excl total k th holds owner show ?thesis
      by (auto simp: counter_inv_def nth_list_update sum_list_map_update split: if_splits)
  next
    case (C_load i)
    with act ok others excl total k th holds owner show ?thesis
      by (auto simp: counter_inv_def nth_list_update sum_list_map_update)
  next
    case (C_store i v)
    with ok have v: "v = counter g" by simp
    have "uint (counter g) < 2 ^ 63" using counter_sum_bound [OF inv len] by simp
    then have up: "uint (v + 1) = uint (counter g) + 1" unfolding v by (rule uint64_succ)
    have oth: "c_ok args (v + 1) (ths ! u)" if "u < length ths" "u \<noteq> k" for u
    proof -
      from that holds C_store excl [of u] have "\<not> c_holds (ths ! u)" by auto
      then show ?thesis using others [OF that] by (rule c_ok_other)
    qed
    from C_store act have l': "l' = C_unlock i" "g' = g\<lparr>counter := v + 1\<rparr>" by auto
    show ?thesis
      unfolding counter_inv_def l'
      using ok oth excl total k th up C_store holds owner
      by (auto simp: nth_list_update sum_list_map_update)
  next
    case (C_unlock i)
    with ok have "sint (i + 1) = sint i + 1" by (auto intro: sint_succ)
    with C_unlock act ok others excl total k th holds owner show ?thesis
      by (auto simp: counter_inv_def nth_list_update sum_list_map_update)
  next
    case C_done
    with act show ?thesis by simp
  qed
qed

lemma reach_counter_inv:
  assumes "run_counter_test args s"
  shows "counter_inv args (threads s) (shared s)"
  using assms unfolding run_counter_test_def
proof (rule workload_invariant)
  show "counter_inv args (replicate n Not_a_thread) counter_init" for n
    by (rule counter_inv_init)
next
  fix ths g k
  assume "counter_inv args ths g" "k < length ths" "ths ! k = Not_a_thread"
  then show "counter_inv args (ths[k := Thread (word_of_nat k) (start (counter_task args) (word_of_nat k))]) g"
    by (simp add: counter_task_def counter_inv_launch)
next
  fix ths g k l l' g'
  assume "counter_inv args ths g" "k < length ths" "int (length ths) = sint (num_threads args)"
    "ths ! k = Thread (word_of_nat k) l" "act (counter_task args) k l g = Some (l', g')"
  then show "counter_inv args (ths[k := Thread (word_of_nat k) l']) g'"
    by (simp add: counter_task_def counter_inv_work)
qed


section \<open>The counter test returns\<close>

fun c_rem :: "arg_t \<Rightarrow> counter_pc thread \<Rightarrow> int" where
  "c_rem args Not_a_thread = 0"
| "c_rem args (Thread a (C_loop i)) = 5 * (max 0 (sint (num_ints args)) - sint i) + 1"
| "c_rem args (Thread a (C_lock i)) = 5 * (max 0 (sint (num_ints args)) - sint i)"
| "c_rem args (Thread a (C_load i)) = 5 * (max 0 (sint (num_ints args)) - sint i) - 1"
| "c_rem args (Thread a (C_store i v)) = 5 * (max 0 (sint (num_ints args)) - sint i) - 2"
| "c_rem args (Thread a (C_unlock i)) = 5 * (max 0 (sint (num_ints args)) - sint i) - 3"
| "c_rem args (Thread a C_done) = 0"

definition counter_measure :: "arg_t \<Rightarrow> counter_pc thread list \<Rightarrow> counter_shared \<Rightarrow> nat" where
  "counter_measure args ths g = nat (sum_list (map (c_rem args) ths))"

lemma c_rem_nonneg:
  assumes "c_ok args c th"
  shows "0 \<le> c_rem args th"
proof (cases th)
  case Not_a_thread
  then show ?thesis by simp
next
  case (Thread a l)
  with assms show ?thesis by (cases l) auto
qed

lemma c_rem_step:
  assumes "c_ok args c (Thread a l)" and "counter_workload args k l g = Some (l', g')"
  shows "c_rem args (Thread a l') = c_rem args (Thread a l) - 1"
proof (cases l)
  case (C_loop i)
  with assms show ?thesis by (auto simp: word_sless_alt split: if_splits)
next
  case (C_unlock i)
  with assms have "sint (i + 1) = sint i + 1" by (auto intro: sint_succ)
  with C_unlock assms show ?thesis by auto
qed (use assms in \<open>auto split: if_splits\<close>)

lemma sum_list_nonneg_int:
  fixes f :: "'a \<Rightarrow> int"
  shows "(\<And>x. x \<in> set xs \<Longrightarrow> 0 \<le> f x) \<Longrightarrow> 0 \<le> sum_list (map f xs)"
  by (induction xs) auto

lemma counter_progress:
  assumes inv: "counter_inv args ths g" and al: "all_launched args ths"
    and nd: "\<not> (\<forall>k<length ths. is_done (counter_task args) (ths ! k))"
  shows "\<exists>k l l' g'. k < length ths \<and> ths ! k = Thread (word_of_nat k) l \<and>
          \<not> finished (counter_task args) l \<and> act (counter_task args) k l g = Some (l', g') \<and>
          counter_measure args (ths[k := Thread (word_of_nat k) l']) g' < counter_measure args ths g"
proof -
  have ok: "c_ok args (counter g) (ths ! u)" if "u < length ths" for u
    using inv that by (simp add: counter_inv_def)
  have excl: "c_holds (ths ! u) \<longleftrightarrow> lock g = Some u" if "u < length ths" for u
    using inv that by (simp add: counter_inv_def)
  have owner: "u < length ths" if "lock g = Some u" for u
    using inv that by (simp add: counter_inv_def)
  have th: "\<exists>l. ths ! u = Thread (word_of_nat u) l" if "u < length ths" for u
    using al that by (simp add: all_launched_def)
  have dec: "counter_measure args (ths[k := Thread (word_of_nat k) l']) g' < counter_measure args ths g"
    if k: "k < length ths" and l: "ths ! k = Thread (word_of_nat k) l"
      and a: "counter_workload args k l g = Some (l', g')" for k l l' g'
  proof -
    have "c_ok args (counter g) (Thread (word_of_nat k) l)" using ok [OF k] l by simp
    from c_rem_step [OF this a]
    have "sum_list (map (c_rem args) (ths[k := Thread (word_of_nat k) l'])) =
        sum_list (map (c_rem args) ths) - 1"
      using k l by (simp add: sum_list_map_update)
    moreover have "0 \<le> c_rem args (Thread (word_of_nat k) l')"
    proof -
      have "counter_inv args (ths[k := Thread (word_of_nat k) l']) g'"
        using inv k _ l a by (rule counter_inv_work) (use al in \<open>simp add: all_launched_def\<close>)
      then have "\<forall>u<length ths. c_ok args (counter g') ((ths[k := Thread (word_of_nat k) l']) ! u)"
        by (simp add: counter_inv_def)
      then have "c_ok args (counter g') ((ths[k := Thread (word_of_nat k) l']) ! k)"
        using k by blast
      then show ?thesis using k by (simp add: c_rem_nonneg)
    qed
    moreover have "0 \<le> sum_list (map (c_rem args) (ths[k := Thread (word_of_nat k) l']))"
    proof (rule sum_list_nonneg_int)
      fix x assume "x \<in> set (ths[k := Thread (word_of_nat k) l'])"
      then have "x = Thread (word_of_nat k) l' \<or> x \<in> set ths"
        by (auto dest: set_update_subset_insert [THEN subsetD])
      then show "0 \<le> c_rem args x"
      proof
        assume "x = Thread (word_of_nat k) l'"
        with calculation(2) show ?thesis by simp
      next
        assume "x \<in> set ths"
        then obtain u where "u < length ths" "ths ! u = x" by (auto simp: in_set_conv_nth)
        with ok [of u] show ?thesis by (auto intro: c_rem_nonneg)
      qed
    qed
    ultimately show ?thesis by (simp add: counter_measure_def)
  qed
  show ?thesis
  proof (cases "lock g")
    case None
    from nd obtain k where k: "k < length ths" "\<not> is_done (counter_task args) (ths ! k)" by blast
    from th [OF k(1)] obtain l where l: "ths ! k = Thread (word_of_nat k) l" by blast
    with k(2) have nf: "l \<noteq> C_done" by (simp add: is_done_def counter_task_def)
    have "\<not> c_holds (ths ! k)" using excl [OF k(1)] None by simp
    with l nf obtain l' g' where a: "counter_workload args k l g = Some (l', g')"
      using None by (cases l) auto
    from dec [OF k(1) l a] k(1) l nf a show ?thesis
      by (auto simp: counter_task_def)
  next
    case (Some k)
    then have k: "k < length ths" by (rule owner)
    from th [OF k] obtain l where l: "ths ! k = Thread (word_of_nat k) l" by blast
    have "c_holds (ths ! k)" using excl [OF k] Some by simp
    with l obtain l' g' where a: "counter_workload args k l g = Some (l', g')" and nf: "l \<noteq> C_done"
      by (cases l) auto
    from dec [OF k l a] k l nf a show ?thesis
      by (auto simp: counter_task_def)
  qed
qed

lemma counter_can_return:
  assumes "run_counter_test args s" and "0 \<le> sint (num_threads args)"
  shows "can_return args (counter_task args) s"
proof (rule can_return_generic [where P = "counter_inv args" and m = "counter_measure args" and ?g0.0 = counter_init])
  show "counter_inv args (threads s) (shared s)" if "reach args (counter_task args) counter_init s" for s
    using that by (simp add: reach_counter_inv run_counter_test_def)
  show "reach args (counter_task args) counter_init s" using assms(1) by (simp add: run_counter_test_def)
  show "0 \<le> sint (num_threads args)" by fact
qed (rule counter_progress)

lemma sum_list_map_const:
  fixes f :: "'a \<Rightarrow> int"
  shows "(\<And>x. x \<in> set xs \<Longrightarrow> f x = m) \<Longrightarrow> sum_list (map f xs) = int (length xs) * m"
  by (induction xs) (auto simp: algebra_simps)

lemma counter_final:
  assumes r: "run_counter_test args s" and ret: "returned s"
  shows "uint (counter (shared s)) = sint (num_threads args) * max 0 (sint (num_ints args))"
proof -
  from r have mi: "main_inv args (counter_task args) s"
    by (simp add: run_counter_test_def reach_main_inv)
  with ret have al: "all_launched args (threads s)"
    and dn: "\<And>k. k < length (threads s) \<Longrightarrow> is_done (counter_task args) (threads s ! k)"
    by (simp_all add: main_inv_def returned_def)
  have "sum_list (map (c_iters args) (threads s)) = int (length (threads s)) * max 0 (sint (num_ints args))"
  proof (rule sum_list_map_const)
    fix x assume "x \<in> set (threads s)"
    then obtain k where "k < length (threads s)" "threads s ! k = x" by (auto simp: in_set_conv_nth)
    with dn [of k] show "c_iters args x = max 0 (sint (num_ints args))"
      by (cases x) (auto simp: is_done_def counter_task_def)
  qed
  moreover have "int (length (threads s)) = sint (num_threads args)"
    using al by (simp add: all_launched_def)
  ultimately show ?thesis using reach_counter_inv [OF r] by (simp add: counter_inv_def)
qed

section \<open>The counter test: results\<close>

lemma accesses_counter_holds: "accesses_counter th \<Longrightarrow> c_holds th"
  by (auto simp: accesses_counter_def split: thread.splits counter_pc.splits)

text \<open>
  C2. For \<open>num_threads \<ge> 1\<close> and \<open>num_ints \<ge> 0\<close>: from every state the counter test
  reaches it can run on until \<open>run_timed_test\<close> returns; whenever it has returned, the
  64-bit counter is exactly \<open>num_threads * num_ints\<close>; and a thread about to read or
  write the counter holds the lock.
\<close>

theorem counter_test_exact:
  assumes "1 \<le> sint (num_threads args)" and "0 \<le> sint (num_ints args)"
  shows "(\<forall>s. run_counter_test args s \<longrightarrow> can_return args (counter_task args) s) \<and>
    (\<forall>s. run_counter_test args s \<and> returned s \<longrightarrow>
       uint (counter (shared s)) = sint (num_threads args) * sint (num_ints args)) \<and>
    (\<forall>s k. run_counter_test args s \<and> k < length (threads s) \<and> accesses_counter (threads s ! k) \<longrightarrow>
       lock (shared s) = Some k)"
proof (intro conjI allI impI)
  fix s assume "run_counter_test args s"
  then show "can_return args (counter_task args) s"
    using assms(1) by (simp add: counter_can_return)
next
  fix s assume "run_counter_test args s \<and> returned s"
  then have "uint (counter (shared s)) = sint (num_threads args) * max 0 (sint (num_ints args))"
    by (simp add: counter_final)
  with assms(2) show "uint (counter (shared s)) = sint (num_threads args) * sint (num_ints args)"
    by simp
next
  fix s k
  assume a: "run_counter_test args s \<and> k < length (threads s) \<and> accesses_counter (threads s ! k)"
  then have "counter_inv args (threads s) (shared s)" by (simp add: reach_counter_inv)
  then have "c_holds (threads s ! k) \<longleftrightarrow> lock (shared s) = Some k"
    using a by (simp add: counter_inv_def)
  with a show "lock (shared s) = Some k" by (simp add: accesses_counter_holds)
qed

theorem counter_test_exact_witness:
  "\<exists>s. run_counter_test \<lparr>num_ints = 1, num_threads = 2, behavior = ''counter'', usage = False\<rparr> s \<and>
     returned s \<and> uint (counter (shared s)) = 2"
proof -
  let ?A = "\<lparr>num_ints = 1, num_threads = 2, behavior = ''counter'', usage = False\<rparr>"
  have "\<exists>s. exec ?A (counter_task ?A)
     [Main, Main, Worker 0, Main, Worker 1, Worker 0, Tick 1, Worker 0, Main, Worker 0, Worker 0,
      Worker 1, Worker 1, Worker 0, Worker 1, Worker 1, Main, Worker 1, Main, Main, Tick 2, Main]
     (init_sys counter_init) = Some s \<and> returned s"
    by (simp add: counter_task_def counter_init_def init_sys_def run_timed_test_def
        worker_step_def returned_def word_sless_alt)
  then obtain s where e: "exec ?A (counter_task ?A)
     [Main, Main, Worker 0, Main, Worker 1, Worker 0, Tick 1, Worker 0, Main, Worker 0, Worker 0,
      Worker 1, Worker 1, Worker 0, Worker 1, Worker 1, Main, Worker 1, Main, Main, Tick 2, Main]
     (init_sys counter_init) = Some s" and ret: "returned s" by blast
  from reach_exec [OF reach_init e] have r: "run_counter_test ?A s"
    by (simp add: run_counter_test_def)
  have "uint (counter (shared s)) = sint (num_threads ?A) * sint (num_ints ?A)"
    using counter_test_exact [of ?A] r ret by simp
  then have "uint (counter (shared s)) = 2" by simp
  with r ret show ?thesis by blast
qed

section \<open>The counters test: invariant\<close>

lemma int_rem_1024:
  assumes "0 \<le> sint r"
  shows "0 \<le> sint (int_rem r 1024)" and "sint (int_rem r 1024) < 1024"
proof -
  have m: "sint r smod 1024 = sint r mod 1024"
    using assms by (simp add: signed_modulo_int_def sgn_if)
  have "0 \<le> sint r mod 1024" "sint r mod 1024 < 1024" by simp_all
  then have "sint (word_of_int (sint r mod 1024) :: 32 word) = sint r mod 1024"
    by (simp add: sint_sbintrunc' signed_take_bit_int_eq_self)
  then have "sint (int_rem r 1024) = sint r mod 1024" by (simp add: int_rem_def m)
  then show "0 \<le> sint (int_rem r 1024)" and "sint (int_rem r 1024) < 1024" by simp_all
qed

fun k_iters :: "arg_t \<Rightarrow> counters_pc thread \<Rightarrow> int" where
  "k_iters args (Thread a (K_loop i seed)) = sint i"
| "k_iters args (Thread a (K_inc i seed idx)) = sint i"
| "k_iters args (Thread a K_done) = max 0 (sint (num_ints args))"
| "k_iters args _ = 0"

fun k_ok :: "arg_t \<Rightarrow> counters_pc thread \<Rightarrow> bool" where
  "k_ok args Not_a_thread = True"
| "k_ok args (Thread a (K_loop i seed)) = (0 \<le> sint i \<and> sint i \<le> max 0 (sint (num_ints args)))"
| "k_ok args (Thread a (K_inc i seed idx)) =
     (0 \<le> sint i \<and> sint i < sint (num_ints args) \<and> 0 \<le> sint idx \<and> sint idx < 1024)"
| "k_ok args (Thread a K_done) = True"
| "k_ok args (Thread a K_undefined) = False"

definition counters_inv :: "arg_t \<Rightarrow> counters_pc thread list \<Rightarrow> counters_shared \<Rightarrow> bool" where
  "counters_inv args ths g =
     (length (counters g) = 1024 \<and> (\<forall>k<length ths. k_ok args (ths ! k)) \<and>
      sum_list (map uint (counters g)) = sum_list (map (k_iters args) ths))"

lemma k_iters_le:
  assumes "k_ok args th"
  shows "k_iters args th \<le> max 0 (sint (num_ints args))"
proof (cases th)
  case Not_a_thread
  then show ?thesis by simp
next
  case (Thread a l)
  with assms show ?thesis by (cases l) auto
qed

lemma counters_sum_bound:
  assumes "counters_inv args ths g" and "int (length ths) = sint (num_threads args)"
  shows "sum_list (map uint (counters g)) \<le> 2 ^ 62"
proof -
  have "sum_list (map (k_iters args) ths) \<le> int (length ths) * max 0 (sint (num_ints args))"
  proof (rule sum_list_map_le)
    fix x assume "x \<in> set ths"
    then obtain k where "k < length ths" "ths ! k = x" by (auto simp: in_set_conv_nth)
    with assms(1) have "k_ok args x" by (auto simp: counters_inv_def)
    then show "k_iters args x \<le> max 0 (sint (num_ints args))" by (rule k_iters_le)
  qed
  also have "\<dots> \<le> 2 ^ 31 * 2 ^ 31"
  proof (rule mult_mono)
    show "int (length ths) \<le> 2 ^ 31" using assms(2) sint_lt [of "num_threads args"] by simp
    show "max 0 (sint (num_ints args)) \<le> 2 ^ 31" using sint_lt [of "num_ints args"] by simp
  qed simp_all
  finally show ?thesis using assms(1) by (simp add: counters_inv_def)
qed

lemma uint_le_sum_list:
  "j < length cs \<Longrightarrow> uint (cs ! j) \<le> sum_list (map uint cs)"
proof (induction cs arbitrary: j)
  case Nil
  then show ?case by simp
next
  case (Cons c cs)
  have nn: "0 \<le> sum_list (map uint cs)" by (rule sum_list_nonneg_int) simp
  show ?case
  proof (cases j)
    case 0
    with nn show ?thesis by simp
  next
    case (Suc n)
    with Cons have "uint (cs ! n) \<le> sum_list (map uint cs)" by simp
    with Suc show ?thesis by (simp add: add_increasing)
  qed
qed

lemma counters_inv_init: "counters_inv args (replicate n Not_a_thread) counters_init"
  by (simp add: counters_inv_def counters_init_def sum_list_replicate)

lemma counters_inv_launch:
  assumes "counters_inv args ths g" and "k < length ths" and "ths ! k = Not_a_thread"
  shows "counters_inv args (ths[k := Thread a (K_loop 0 b)]) g"
  using assms unfolding counters_inv_def
  by (auto simp: nth_list_update sum_list_map_update)

lemma counters_idx_ok:
  assumes act: "counters_workload rand_r args k l g = Some (l', g')"
    and ok: "k_ok args (Thread a l)"
    and rnd: "sint (num_ints args) \<le> 0 \<or> rand_r_nonneg rand_r"
    and l': "l' = K_inc i seed idx"
  shows "0 \<le> sint idx \<and> sint idx < 1024"
proof (cases l)
  case (K_loop j sd)
  with act l' have lt: "sint j < sint (num_ints args)"
    and idx: "idx = int_rem (fst (rand_r sd)) 1024"
    by (auto simp: word_sless_alt split: if_splits prod.splits)
  from lt ok K_loop rnd have "rand_r_nonneg rand_r" by auto
  then have "0 \<le> sint (fst (rand_r sd))" by (simp add: rand_r_nonneg_def)
  from int_rem_1024 [OF this] idx show ?thesis by simp
qed (use act l' in \<open>auto split: if_splits\<close>)

lemma counters_inv_work:
  assumes inv: "counters_inv args ths g" and k: "k < length ths"
    and len: "int (length ths) = sint (num_threads args)"
    and th: "ths ! k = Thread a l"
    and act: "counters_workload rand_r args k l g = Some (l', g')"
    and inside: "\<And>i seed idx. l' = K_inc i seed idx \<Longrightarrow> 0 \<le> sint idx \<and> sint idx < 1024"
  shows "counters_inv args (ths[k := Thread a l']) g'"
proof -
  from inv k th have ok: "k_ok args (Thread a l)"
    and others: "\<And>u. u < length ths \<Longrightarrow> k_ok args (ths ! u)"
    and total: "sum_list (map uint (counters g)) = sum_list (map (k_iters args) ths)"
    and cl: "length (counters g) = 1024"
    by (auto simp: counters_inv_def)
  show ?thesis
  proof (cases l)
    case (K_loop i seed)
    show ?thesis
    proof (cases "i <s num_ints args")
      case True
      then have lt: "sint i < sint (num_ints args)" by (simp add: word_sless_alt)
      from act K_loop True have "l' = K_inc i (snd (rand_r seed)) (int_rem (fst (rand_r seed)) 1024)" "g' = g"
        by (auto split: prod.splits)
      moreover from this(1) have idx: "0 \<le> sint (int_rem (fst (rand_r seed)) 1024)"
        "sint (int_rem (fst (rand_r seed)) 1024) < 1024"
        using inside by simp_all
      ultimately show ?thesis using K_loop ok others total k th cl lt
        by (auto simp: counters_inv_def nth_list_update sum_list_map_update)
    next
      case False
      with K_loop act ok others total k th cl show ?thesis
        by (auto simp: counters_inv_def nth_list_update sum_list_map_update word_sless_alt)
    qed
  next
    case (K_inc i seed idx)
    with ok have i: "0 \<le> sint i" "sint i < sint (num_ints args)" and idx: "0 \<le> sint idx" "sint idx < 1024"
      by simp_all
    define j where "j = nat (sint idx)"
    have j: "j < length (counters g)" using idx cl by (simp add: j_def)
    from act K_inc idx have l': "l' = K_loop (i + 1) seed"
      and g': "g' = g\<lparr>counters := (counters g)[j := counters g ! j + 1]\<rparr>"
      by (auto simp: j_def)
    have "uint (counters g ! j) \<le> sum_list (map uint (counters g))" using j by (rule uint_le_sum_list)
    also have "\<dots> \<le> 2 ^ 62" using inv len by (rule counters_sum_bound)
    finally have "uint (counters g ! j) < 2 ^ 63" by simp
    then have up: "uint (counters g ! j + 1) = uint (counters g ! j) + 1" by (rule uint64_succ)
    have succ: "sint (i + 1) = sint i + 1" using i(2) by (rule sint_succ)
    show ?thesis
      unfolding counters_inv_def l' g'
      using others total k th cl j up succ i K_inc
      by (auto simp: nth_list_update sum_list_map_update)
  next
    case K_done
    with act show ?thesis by simp
  next
    case K_undefined
    with act show ?thesis by simp
  qed
qed

lemma reach_counters_inv:
  assumes "run_counters_test rand_r args s" and "sint (num_ints args) \<le> 0 \<or> rand_r_nonneg rand_r"
  shows "counters_inv args (threads s) (shared s)"
  using assms(1) unfolding run_counters_test_def
proof (rule workload_invariant)
  show "counters_inv args (replicate n Not_a_thread) counters_init" for n
    by (rule counters_inv_init)
next
  fix ths g k
  assume "counters_inv args ths g" "k < length ths" "ths ! k = Not_a_thread"
  then show "counters_inv args (ths[k := Thread (word_of_nat k) (start (counters_task rand_r args) (word_of_nat k))]) g"
    by (simp add: counters_task_def counters_inv_launch)
next
  fix ths g k l l' g'
  assume "counters_inv args ths g" "k < length ths" "int (length ths) = sint (num_threads args)"
    "ths ! k = Thread (word_of_nat k) l" "act (counters_task rand_r args) k l g = Some (l', g')"
  then show "counters_inv args (ths[k := Thread (word_of_nat k) l']) g'"
    using counters_idx_ok [of rand_r args k l g l' g' "word_of_nat k"] assms(2)
    by (intro counters_inv_work [where rand_r = rand_r and l = l and g = g])
      (auto simp: counters_task_def counters_inv_def)
qed


section \<open>The counters test returns\<close>

fun k_rem :: "arg_t \<Rightarrow> counters_pc thread \<Rightarrow> int" where
  "k_rem args (Thread a (K_loop i seed)) = 2 * (max 0 (sint (num_ints args)) - sint i) + 1"
| "k_rem args (Thread a (K_inc i seed idx)) = 2 * (max 0 (sint (num_ints args)) - sint i)"
| "k_rem args _ = 0"

definition counters_measure :: "arg_t \<Rightarrow> counters_pc thread list \<Rightarrow> counters_shared \<Rightarrow> nat" where
  "counters_measure args ths g = nat (sum_list (map (k_rem args) ths))"

lemma k_rem_nonneg:
  assumes "k_ok args th"
  shows "0 \<le> k_rem args th"
proof (cases th)
  case Not_a_thread
  then show ?thesis by simp
next
  case (Thread a l)
  with assms show ?thesis by (cases l) auto
qed

lemma k_rem_step:
  assumes "k_ok args (Thread a l)" and "counters_workload rand_r args k l g = Some (l', g')"
  shows "k_rem args (Thread a l') = k_rem args (Thread a l) - 1"
proof (cases l)
  case (K_loop i seed)
  with assms show ?thesis by (auto simp: word_sless_alt split: if_splits prod.splits)
next
  case (K_inc i seed idx)
  with assms have "sint (i + 1) = sint i + 1" by (auto intro: sint_succ)
  with K_inc assms show ?thesis by auto
qed (use assms in auto)

lemma measure_step:
  fixes f :: "'a \<Rightarrow> int"
  assumes k: "k < length xs" and nn: "\<And>u. u < length xs \<Longrightarrow> u \<noteq> k \<Longrightarrow> 0 \<le> f (xs ! u)"
    and y: "0 \<le> f y" and dec: "f y < f (xs ! k)"
  shows "nat (sum_list (map f (xs[k := y]))) < nat (sum_list (map f xs))"
proof -
  have "0 \<le> sum_list (map f (xs[k := y]))"
  proof (rule sum_list_nonneg_int)
    fix x assume "x \<in> set (xs[k := y])"
    then obtain u where u: "u < length xs" "x = (xs[k := y]) ! u"
      by (auto simp: in_set_conv_nth)
    show "0 \<le> f x"
    proof (cases "u = k")
      case True
      with u y show ?thesis by simp
    next
      case False
      with u nn [of u] show ?thesis by simp
    qed
  qed
  moreover have "sum_list (map f (xs[k := y])) < sum_list (map f xs)"
    using k dec by (simp add: sum_list_map_update)
  ultimately show ?thesis by simp
qed

lemma counters_progress:
  assumes inv: "counters_inv args ths g" and al: "all_launched args ths"
    and nd: "\<not> (\<forall>k<length ths. is_done (counters_task rand_r args) (ths ! k))"
    and rnd: "sint (num_ints args) \<le> 0 \<or> rand_r_nonneg rand_r"
  shows "\<exists>k l l' g'. k < length ths \<and> ths ! k = Thread (word_of_nat k) l \<and>
          \<not> finished (counters_task rand_r args) l \<and>
          act (counters_task rand_r args) k l g = Some (l', g') \<and>
          counters_measure args (ths[k := Thread (word_of_nat k) l']) g' < counters_measure args ths g"
proof -
  have ok: "k_ok args (ths ! u)" if "u < length ths" for u
    using inv that by (simp add: counters_inv_def)
  from nd obtain k where k: "k < length ths" "\<not> is_done (counters_task rand_r args) (ths ! k)" by blast
  from al k(1) obtain l where l: "ths ! k = Thread (word_of_nat k) l" by (auto simp: all_launched_def)
  with k(2) have nf: "l \<noteq> K_done" by (simp add: is_done_def counters_task_def)
  have okk: "k_ok args (Thread (word_of_nat k) l)" using ok [OF k(1)] l by simp
  with nf obtain l' g' where a: "counters_workload rand_r args k l g = Some (l', g')"
    by (cases l) auto
  have len: "int (length ths) = sint (num_threads args)" using al by (simp add: all_launched_def)
  have "counters_inv args (ths[k := Thread (word_of_nat k) l']) g'"
    using inv k(1) len l a
    by (rule counters_inv_work) (use counters_idx_ok [OF a okk rnd] in blast)
  then have "\<forall>u<length ths. k_ok args ((ths[k := Thread (word_of_nat k) l']) ! u)"
    by (simp add: counters_inv_def)
  then have "k_ok args ((ths[k := Thread (word_of_nat k) l']) ! k)" using k(1) by blast
  then have nn: "0 \<le> k_rem args (Thread (word_of_nat k) l')" using k(1) by (simp add: k_rem_nonneg)
  have "k_rem args (Thread (word_of_nat k) l') < k_rem args (ths ! k)"
    using k_rem_step [OF okk a] l by simp
  with k(1) nn have "counters_measure args (ths[k := Thread (word_of_nat k) l']) g' < counters_measure args ths g"
    unfolding counters_measure_def by (intro measure_step) (auto intro: k_rem_nonneg ok)
  with k(1) l nf a show ?thesis by (auto simp: counters_task_def)
qed

lemma counters_can_return:
  assumes "run_counters_test rand_r args s" and "0 \<le> sint (num_threads args)"
    and rnd: "sint (num_ints args) \<le> 0 \<or> rand_r_nonneg rand_r"
  shows "can_return args (counters_task rand_r args) s"
proof (rule can_return_generic [where P = "counters_inv args" and m = "counters_measure args"
      and ?g0.0 = counters_init])
  show "counters_inv args (threads s) (shared s)"
    if "reach args (counters_task rand_r args) counters_init s" for s
    using that rnd by (simp add: reach_counters_inv run_counters_test_def)
  show "reach args (counters_task rand_r args) counters_init s"
    using assms(1) by (simp add: run_counters_test_def)
  show "0 \<le> sint (num_threads args)" by fact
qed (rule counters_progress [OF _ _ _ rnd])

lemma counters_final:
  assumes r: "run_counters_test rand_r args s" and ret: "returned s"
    and rnd: "sint (num_ints args) \<le> 0 \<or> rand_r_nonneg rand_r"
  shows "sum_list (map uint (counters (shared s))) = sint (num_threads args) * max 0 (sint (num_ints args))"
proof -
  from r have mi: "main_inv args (counters_task rand_r args) s"
    by (simp add: run_counters_test_def reach_main_inv)
  with ret have al: "all_launched args (threads s)"
    and dn: "\<And>k. k < length (threads s) \<Longrightarrow> is_done (counters_task rand_r args) (threads s ! k)"
    by (simp_all add: main_inv_def returned_def)
  have "sum_list (map (k_iters args) (threads s)) = int (length (threads s)) * max 0 (sint (num_ints args))"
  proof (rule sum_list_map_const)
    fix x assume "x \<in> set (threads s)"
    then obtain k where "k < length (threads s)" "threads s ! k = x" by (auto simp: in_set_conv_nth)
    with dn [of k] show "k_iters args x = max 0 (sint (num_ints args))"
      by (cases x) (auto simp: is_done_def counters_task_def)
  qed
  moreover have "int (length (threads s)) = sint (num_threads args)"
    using al by (simp add: all_launched_def)
  ultimately show ?thesis using reach_counters_inv [OF r rnd] by (simp add: counters_inv_def)
qed

section \<open>The counters test with any generator\<close>

text \<open>
  A thread that has computed an index outside the table, or has used one, never returns;
  so once the test has returned the invariant holds whatever \<open>rand_r\<close> is.
\<close>

fun k_lost :: "counters_pc thread \<Rightarrow> bool" where
  "k_lost (Thread a K_undefined) = True"
| "k_lost (Thread a (K_inc i seed idx)) = (\<not> (0 \<le> sint idx \<and> sint idx < 1024))"
| "k_lost _ = False"

definition counters_weak :: "arg_t \<Rightarrow> counters_pc thread list \<Rightarrow> counters_shared \<Rightarrow> bool" where
  "counters_weak args ths g = ((\<exists>u<length ths. k_lost (ths ! u)) \<or> counters_inv args ths g)"

lemma k_lost_step:
  assumes "k_lost (Thread a l)" and "counters_workload rand_r args k l g = Some (l', g')"
  shows "k_lost (Thread a l')"
  using assms by (cases l) (auto split: if_splits)

lemma counters_weak_work:
  assumes w: "counters_weak args ths g" and k: "k < length ths"
    and len: "int (length ths) = sint (num_threads args)"
    and th: "ths ! k = Thread a l"
    and act: "counters_workload rand_r args k l g = Some (l', g')"
  shows "counters_weak args (ths[k := Thread a l']) g'"
proof (cases "\<exists>u<length ths. k_lost (ths ! u)")
  case True
  then obtain u where u: "u < length ths" "k_lost (ths ! u)" by blast
  have "k_lost ((ths[k := Thread a l']) ! u)"
  proof (cases "u = k")
    case True
    with u th have "k_lost (Thread a l)" by simp
    from k_lost_step [OF this act] True k show ?thesis by simp
  next
    case False
    with u show ?thesis by simp
  qed
  with u(1) show ?thesis unfolding counters_weak_def by auto
next
  case False
  with w have inv: "counters_inv args ths g" by (simp add: counters_weak_def)
  show ?thesis
  proof (cases "k_lost (Thread a l')")
    case True
    with k have "k_lost ((ths[k := Thread a l']) ! k)" by simp
    with k show ?thesis unfolding counters_weak_def by auto
  next
    case False
    have "counters_inv args (ths[k := Thread a l']) g'"
      using inv k len th act by (rule counters_inv_work) (use False in auto)
    then show ?thesis by (simp add: counters_weak_def)
  qed
qed

lemma reach_counters_weak:
  assumes "run_counters_test rand_r args s"
  shows "counters_weak args (threads s) (shared s)"
  using assms unfolding run_counters_test_def
proof (rule workload_invariant)
  show "counters_weak args (replicate n Not_a_thread) counters_init" for n
    by (simp add: counters_weak_def counters_inv_init)
next
  fix ths g k
  assume w: "counters_weak args ths g" and k: "k < length ths" and n: "ths ! k = Not_a_thread"
  let ?y = "Thread (word_of_nat k) (start (counters_task rand_r args) (word_of_nat k))"
  show "counters_weak args (ths[k := ?y]) g"
  proof (cases "\<exists>u<length ths. k_lost (ths ! u)")
    case True
    then obtain u where u: "u < length ths" "k_lost (ths ! u)" by blast
    with n have "u \<noteq> k" by auto
    with u have "k_lost ((ths[k := ?y]) ! u)" by simp
    with u(1) show ?thesis unfolding counters_weak_def by auto
  next
    case False
    with w have "counters_inv args ths g" by (simp add: counters_weak_def)
    from counters_inv_launch [OF this k n] show ?thesis
      by (simp add: counters_weak_def counters_task_def)
  qed
next
  fix ths g k l l' g'
  assume "counters_weak args ths g" "k < length ths" "int (length ths) = sint (num_threads args)"
    "ths ! k = Thread (word_of_nat k) l" "act (counters_task rand_r args) k l g = Some (l', g')"
  then show "counters_weak args (ths[k := Thread (word_of_nat k) l']) g'"
    by (simp add: counters_task_def counters_weak_work)
qed

lemma counters_final_any:
  assumes r: "run_counters_test rand_r args s" and ret: "returned s"
  shows "sum_list (map uint (counters (shared s))) =
      sint (num_threads args) * max 0 (sint (num_ints args))"
    and "length (counters (shared s)) = 1024"
proof -
  from r have mi: "main_inv args (counters_task rand_r args) s"
    by (simp add: run_counters_test_def reach_main_inv)
  with ret have al: "all_launched args (threads s)"
    and dn: "\<And>k. k < length (threads s) \<Longrightarrow> is_done (counters_task rand_r args) (threads s ! k)"
    by (simp_all add: main_inv_def returned_def)
  have nl: "\<not> k_lost (threads s ! u)" if "u < length (threads s)" for u
    using dn [OF that] by (cases "threads s ! u") (auto simp: is_done_def counters_task_def)
  with reach_counters_weak [OF r] have inv: "counters_inv args (threads s) (shared s)"
    by (auto simp: counters_weak_def)
  then show "length (counters (shared s)) = 1024" by (simp add: counters_inv_def)
  have "sum_list (map (k_iters args) (threads s)) = int (length (threads s)) * max 0 (sint (num_ints args))"
  proof (rule sum_list_map_const)
    fix x assume "x \<in> set (threads s)"
    then obtain k where "k < length (threads s)" "threads s ! k = x" by (auto simp: in_set_conv_nth)
    with dn [of k] show "k_iters args x = max 0 (sint (num_ints args))"
      by (cases x) (auto simp: is_done_def counters_task_def)
  qed
  moreover have "int (length (threads s)) = sint (num_threads args)"
    using al by (simp add: all_launched_def)
  ultimately show "sum_list (map uint (counters (shared s))) =
      sint (num_threads args) * max 0 (sint (num_ints args))"
    using inv by (simp add: counters_inv_def)
qed

section \<open>The counters test: results\<close>

lemma lcg_nonneg: "rand_r_nonneg lcg"
proof -
  have "sint (word_of_nat (unat seed mod 32768) :: 32 word) = int (unat seed mod 32768)" for seed :: "32 word"
  proof -
    have "int (unat seed mod 32768) < 2 ^ 31"
      by (rule less_trans [of _ 32768]) simp_all
    then have "signed_take_bit 31 (int (unat seed mod 32768)) = int (unat seed mod 32768)"
      by (intro signed_take_bit_int_eq_self) simp_all
    then show ?thesis
      using sint_sbintrunc' [where 'a = 32, of "int (unat seed mod 32768)"] by simp
  qed
  then show ?thesis by (simp add: rand_r_nonneg_def lcg_def)
qed

lemma c_iters_nonneg:
  assumes "c_ok args c th"
  shows "0 \<le> c_iters args th"
proof (cases th)
  case Not_a_thread
  then show ?thesis by simp
next
  case (Thread a l)
  with assms show ?thesis by (cases l) auto
qed

lemma k_iters_nonneg:
  assumes "k_ok args th"
  shows "0 \<le> k_iters args th"
proof (cases th)
  case Not_a_thread
  then show ?thesis by simp
next
  case (Thread a l)
  with assms show ?thesis by (cases l) auto
qed

lemma counter_zero:
  assumes r: "run_counter_test args s" and ni: "sint (num_ints args) \<le> 0"
  shows "counter (shared s) = 0"
proof -
  note inv = reach_counter_inv [OF r]
  have "sum_list (map (c_iters args) (threads s)) = int (length (threads s)) * 0"
  proof (rule sum_list_map_const)
    fix x assume "x \<in> set (threads s)"
    then obtain k where "k < length (threads s)" "threads s ! k = x" by (auto simp: in_set_conv_nth)
    with inv have ok: "c_ok args (counter (shared s)) x" by (auto simp: counter_inv_def)
    from c_iters_le [OF ok] c_iters_nonneg [OF ok] ni show "c_iters args x = 0" by simp
  qed
  with inv have "uint (counter (shared s)) = 0" by (simp add: counter_inv_def)
  then show ?thesis by (simp add: uint_0_iff)
qed

lemma counters_zero:
  assumes r: "run_counters_test rand_r args s" and ni: "sint (num_ints args) \<le> 0"
  shows "sum_list (map uint (counters (shared s))) = 0"
proof -
  from ni have "sint (num_ints args) \<le> 0 \<or> rand_r_nonneg rand_r" by simp
  note inv = reach_counters_inv [OF r this]
  have "sum_list (map (k_iters args) (threads s)) = int (length (threads s)) * 0"
  proof (rule sum_list_map_const)
    fix x assume "x \<in> set (threads s)"
    then obtain k where "k < length (threads s)" "threads s ! k = x" by (auto simp: in_set_conv_nth)
    with inv have ok: "k_ok args x" by (auto simp: counters_inv_def)
    from k_iters_le [OF ok] k_iters_nonneg [OF ok] ni show "k_iters args x = 0" by simp
  qed
  with inv show ?thesis by (simp add: counters_inv_def)
qed

text \<open>
  C3. For \<open>num_threads \<ge> 1\<close> and \<open>num_ints \<ge> 0\<close>: whenever the counters test has
  returned, the table has its 1024 slots and their sum is exactly
  \<open>num_threads * num_ints\<close>, whatever values \<open>rand_r\<close> returned; and when \<open>rand_r\<close>
  returns non-negative values only, from every state the test reaches it can run on until
  \<open>run_timed_test\<close> returns.
\<close>

theorem counters_test_exact:
  assumes "1 \<le> sint (num_threads args)" and "0 \<le> sint (num_ints args)"
  shows "(rand_r_nonneg rand_r \<longrightarrow>
       (\<forall>s. run_counters_test rand_r args s \<longrightarrow> can_return args (counters_task rand_r args) s)) \<and>
    (\<forall>s. run_counters_test rand_r args s \<and> returned s \<longrightarrow>
       length (counters (shared s)) = 1024 \<and>
       sum_list (map uint (counters (shared s))) = sint (num_threads args) * sint (num_ints args))"
proof (intro conjI allI impI)
  fix s assume "rand_r_nonneg rand_r" "run_counters_test rand_r args s"
  then show "can_return args (counters_task rand_r args) s"
    using assms(1) by (simp add: counters_can_return)
next
  fix s assume a: "run_counters_test rand_r args s \<and> returned s"
  then have r: "run_counters_test rand_r args s" and ret: "returned s" by simp_all
  show "length (counters (shared s)) = 1024" by (rule counters_final_any(2) [OF r ret])
  from counters_final_any(1) [OF r ret] assms(2)
  show "sum_list (map uint (counters (shared s))) =
      sint (num_threads args) * sint (num_ints args)" by simp
qed

theorem counters_test_exact_witness:
  "(\<exists>s. run_counters_test lcg \<lparr>num_ints = 2, num_threads = 2, behavior = ''counters'', usage = False\<rparr> s \<and>
      returned s \<and> sum_list (map uint (counters (shared s))) = 4) \<and>
   can_return \<lparr>num_ints = 2, num_threads = 2, behavior = ''counters'', usage = False\<rparr>
     (counters_task lcg \<lparr>num_ints = 2, num_threads = 2, behavior = ''counters'', usage = False\<rparr>)
     (init_sys counters_init)"
proof -
  let ?A = "\<lparr>num_ints = 2, num_threads = 2, behavior = ''counters'', usage = False\<rparr>"
  have "\<exists>s. exec ?A (counters_task lcg ?A)
     [Main, Main, Worker 0, Main, Worker 1, Worker 0, Worker 1, Worker 0, Main, Worker 1, Worker 0,
      Worker 1, Worker 1, Worker 0, Main, Main, Main, Main]
     (init_sys counters_init) = Some s \<and> returned s"
    by (simp add: counters_task_def counters_init_def init_sys_def run_timed_test_def
        worker_step_def returned_def word_sless_alt lcg_def int_rem_def signed_modulo_int_def)
  then obtain s where e: "exec ?A (counters_task lcg ?A)
     [Main, Main, Worker 0, Main, Worker 1, Worker 0, Worker 1, Worker 0, Main, Worker 1, Worker 0,
      Worker 1, Worker 1, Worker 0, Main, Main, Main, Main]
     (init_sys counters_init) = Some s" and ret: "returned s" by blast
  from reach_exec [OF reach_init e] have r: "run_counters_test lcg ?A s"
    by (simp add: run_counters_test_def)
  have "sum_list (map uint (counters (shared s))) = sint (num_threads ?A) * sint (num_ints ?A)"
    using counters_test_exact [of ?A lcg] r ret by simp
  then have "sum_list (map uint (counters (shared s))) = 4" by simp
  with r ret have "\<exists>s. run_counters_test lcg ?A s \<and> returned s \<and>
      sum_list (map uint (counters (shared s))) = 4" by blast
  moreover have "run_counters_test lcg ?A (init_sys counters_init)"
    unfolding run_counters_test_def by (rule reach_init)
  then have "can_return ?A (counters_task lcg ?A) (init_sys counters_init)"
    using counters_test_exact [of ?A lcg] lcg_nonneg by simp
  ultimately show ?thesis by simp
qed


text \<open>
  C9. With \<open>rand_r\<close> any function that returns non-negative values: every index
  \<open>rand_r(&seed) % 1024\<close> lies in \<open>[0, 1024)\<close>, and in every state the counters test
  reaches no thread has left the array (\<open>K_undefined\<close>) and a thread about to increment
  \<open>counters[idx]\<close> has \<open>idx\<close> inside the table.
\<close>

theorem shard_index_in_bounds:
  assumes "rand_r_nonneg rand_r"
  shows "(\<forall>seed. 0 \<le> sint (int_rem (fst (rand_r seed)) 1024) \<and>
            sint (int_rem (fst (rand_r seed)) 1024) < 1024) \<and>
    (\<forall>s k a l. run_counters_test rand_r args s \<and> k < length (threads s) \<and>
         threads s ! k = Thread a l \<longrightarrow>
       l \<noteq> K_undefined \<and>
       (\<forall>i seed idx. l = K_inc i seed idx \<longrightarrow>
          0 \<le> sint idx \<and> nat (sint idx) < length (counters (shared s)) \<and>
          length (counters (shared s)) = 1024))"
proof (intro conjI allI impI)
  fix seed
  have "0 \<le> sint (fst (rand_r seed))" using assms by (simp add: rand_r_nonneg_def)
  from int_rem_1024 [OF this]
  show "0 \<le> sint (int_rem (fst (rand_r seed)) 1024)"
    and "sint (int_rem (fst (rand_r seed)) 1024) < 1024" .
next
  fix s k a l
  assume a: "run_counters_test rand_r args s \<and> k < length (threads s) \<and> threads s ! k = Thread a l"
  then have inv: "counters_inv args (threads s) (shared s)"
    using assms by (intro reach_counters_inv) auto
  with a have ok: "k_ok args (Thread a l)" by (auto simp: counters_inv_def)
  then show "l \<noteq> K_undefined" by auto
  fix i seed idx assume "l = K_inc i seed idx"
  with ok inv show "0 \<le> sint idx" and "nat (sint idx) < length (counters (shared s))"
    and "length (counters (shared s)) = 1024"
    by (auto simp: counters_inv_def)
qed

theorem shard_index_in_bounds_witness:
  "\<exists>s a i seed idx. run_counters_test lcg \<lparr>num_ints = 1, num_threads = 1, behavior = ''counters'', usage = False\<rparr> s \<and>
     threads s ! 0 = Thread a (K_inc i seed idx) \<and> 0 \<le> sint idx \<and>
     nat (sint idx) < length (counters (shared s))"
proof -
  let ?A = "\<lparr>num_ints = 1, num_threads = 1, behavior = ''counters'', usage = False\<rparr>"
  have "\<exists>s a i seed idx. exec ?A (counters_task lcg ?A) [Main, Main, Worker 0]
     (init_sys counters_init) = Some s \<and> length (threads s) = 1 \<and>
     threads s ! 0 = Thread a (K_inc i seed idx)"
    by (simp add: counters_task_def counters_init_def init_sys_def run_timed_test_def
        worker_step_def word_sless_alt lcg_def)
  then obtain s a i seed idx where e: "exec ?A (counters_task lcg ?A) [Main, Main, Worker 0]
     (init_sys counters_init) = Some s" and len: "length (threads s) = 1"
    and th: "threads s ! 0 = Thread a (K_inc i seed idx)" by blast
  from reach_exec [OF reach_init e] have r: "run_counters_test lcg ?A s"
    by (simp add: run_counters_test_def)
  have "0 \<le> sint idx \<and> nat (sint idx) < length (counters (shared s))"
    using shard_index_in_bounds [OF lcg_nonneg, of ?A, THEN conjunct2, rule_format,
        of s 0 a "K_inc i seed idx"] r len th by simp
  with r th show ?thesis by blast
qed

text \<open>
  C10. For \<open>num_ints \<le> 0\<close>, negative values included: in every state the counter test
  reaches the counter is 0, and in every state the counters test reaches the sum of the
  slots is 0, whatever \<open>rand_r\<close> is; and when \<open>num_threads\<close> is not negative both tests
  can always run on until \<open>run_timed_test\<close> returns.
\<close>

theorem no_work_leaves_zero:
  assumes "sint (num_ints args) \<le> 0"
  shows "(\<forall>s. run_counter_test args s \<longrightarrow> counter (shared s) = 0) \<and>
    (\<forall>s. run_counters_test rand_r args s \<longrightarrow> sum_list (map uint (counters (shared s))) = 0) \<and>
    (0 \<le> sint (num_threads args) \<longrightarrow>
       (\<forall>s. run_counter_test args s \<longrightarrow> can_return args (counter_task args) s) \<and>
       (\<forall>s. run_counters_test rand_r args s \<longrightarrow> can_return args (counters_task rand_r args) s))"
  using assms
  by (simp add: counter_zero counters_zero counter_can_return counters_can_return)

theorem no_work_leaves_zero_witness:
  "(\<exists>s. run_counter_test \<lparr>num_ints = - 3, num_threads = 2, behavior = ''counter'', usage = False\<rparr> s \<and>
      returned s \<and> counter (shared s) = 0) \<and>
   (\<exists>s. run_counters_test lcg \<lparr>num_ints = - 3, num_threads = 2, behavior = ''counter'', usage = False\<rparr> s \<and>
      returned s \<and> sum_list (map uint (counters (shared s))) = 0)"
proof -
  let ?A = "\<lparr>num_ints = - 3, num_threads = 2, behavior = ''counter'', usage = False\<rparr>"
  have ni: "sint (num_ints ?A) \<le> 0" by simp
  have "\<exists>s. exec ?A (counter_task ?A) [Main, Main, Worker 0, Main, Main, Main, Worker 1, Main, Main, Main]
     (init_sys counter_init) = Some s \<and> returned s"
    by (simp add: counter_task_def counter_init_def init_sys_def run_timed_test_def
        worker_step_def returned_def word_sless_alt)
  then obtain s where e: "exec ?A (counter_task ?A)
     [Main, Main, Worker 0, Main, Main, Main, Worker 1, Main, Main, Main]
     (init_sys counter_init) = Some s" and ret: "returned s" by blast
  from reach_exec [OF reach_init e] have r: "run_counter_test ?A s"
    by (simp add: run_counter_test_def)
  have c: "counter (shared s) = 0"
    using no_work_leaves_zero [OF ni, of lcg] r by blast
  have "\<exists>s. exec ?A (counters_task lcg ?A) [Main, Main, Worker 0, Main, Main, Main, Worker 1, Main, Main, Main]
     (init_sys counters_init) = Some s \<and> returned s"
    by (simp add: counters_task_def counters_init_def init_sys_def run_timed_test_def
        worker_step_def returned_def word_sless_alt)
  then obtain s' where e': "exec ?A (counters_task lcg ?A)
     [Main, Main, Worker 0, Main, Main, Main, Worker 1, Main, Main, Main]
     (init_sys counters_init) = Some s'" and ret': "returned s'" by blast
  from reach_exec [OF reach_init e'] have r': "run_counters_test lcg ?A s'"
    by (simp add: run_counters_test_def)
  have "sum_list (map uint (counters (shared s'))) = 0"
    using no_work_leaves_zero [OF ni, of lcg] r' by blast
  with c r ret r' ret' show ?thesis by blast
qed

section \<open>The queue test: invariant\<close>

text \<open>The items \<open>0, 1, ..., m - 1\<close>, and the sum of the numbers below \<open>q\<close>.\<close>

definition items :: "nat \<Rightarrow> c_int list" where
  "items m = map word_of_nat [0..<m]"

fun triangle :: "nat \<Rightarrow> int" where
  "triangle 0 = 0"
| "triangle (Suc q) = triangle q + int q"

text \<open>Program points inside a \<open>lock_guard\<close> scope, past the loop of a consumer, and so on.\<close>

fun holds_qlock :: "queue_pc \<Rightarrow> bool" where
  "holds_qlock P_push = True"
| "holds_qlock P_unlock = True"
| "holds_qlock Q_empty = True"
| "holds_qlock Q_done = True"
| "holds_qlock Q_else = True"
| "holds_qlock Q_pop = True"
| "holds_qlock Q_unlock = True"
| "holds_qlock Q_break = True"
| "holds_qlock _ = False"

fun at_barrier :: "queue_pc \<Rightarrow> bool" where
  "at_barrier W_barrier = True"
| "at_barrier W_print = True"
| "at_barrier W_done = True"
| "at_barrier _ = False"

fun passed :: "queue_pc \<Rightarrow> bool" where
  "passed W_print = True"
| "passed W_done = True"
| "passed _ = False"

fun added_sum :: "queue_pc \<Rightarrow> bool" where
  "added_sum Q_add_count = True"
| "added_sum p = at_barrier p"

fun producer_ok :: "int \<Rightarrow> queue_shared \<Rightarrow> queue_pc \<Rightarrow> int \<Rightarrow> bool" where
  "producer_ok n g P_loop i =
     (0 \<le> i \<and> i \<le> max 0 n \<and> int (length (pushed g)) = i \<and> \<not> done_flag g)"
| "producer_ok n g P_lock i =
     (0 \<le> i \<and> i < n \<and> int (length (pushed g)) = i \<and> \<not> done_flag g)"
| "producer_ok n g P_push i =
     (0 \<le> i \<and> i < n \<and> int (length (pushed g)) = i \<and> \<not> done_flag g)"
| "producer_ok n g P_unlock i =
     (0 \<le> i \<and> i < n \<and> int (length (pushed g)) = i + 1 \<and> \<not> done_flag g)"
| "producer_ok n g P_set_done i = (int (length (pushed g)) = max 0 n \<and> \<not> done_flag g)"
| "producer_ok n g W_barrier i = (int (length (pushed g)) = max 0 n \<and> done_flag g)"
| "producer_ok n g W_print i = (int (length (pushed g)) = max 0 n \<and> done_flag g)"
| "producer_ok n g W_done i = (int (length (pushed g)) = max 0 n \<and> done_flag g)"
| "producer_ok n g _ i = False"

fun consumer_ok :: "queue_shared \<Rightarrow> queue_pc \<Rightarrow> bool" where
  "consumer_ok g Q_lock = True"
| "consumer_ok g Q_empty = True"
| "consumer_ok g Q_else = True"
| "consumer_ok g Q_unlock = True"
| "consumer_ok g Q_done = (my_queue g = [])"
| "consumer_ok g Q_pop = (my_queue g \<noteq> [])"
| "consumer_ok g Q_break = (done_flag g \<and> my_queue g = [])"
| "consumer_ok g Q_print = (done_flag g \<and> my_queue g = [])"
| "consumer_ok g Q_add_sum = (done_flag g \<and> my_queue g = [])"
| "consumer_ok g Q_add_count = (done_flag g \<and> my_queue g = [])"
| "consumer_ok g W_barrier = (done_flag g \<and> my_queue g = [])"
| "consumer_ok g W_done = (done_flag g \<and> my_queue g = [])"
| "consumer_ok g _ = False"

fun thread_ok :: "arg_t \<Rightarrow> queue_shared \<Rightarrow> nat \<Rightarrow> queue_local thread \<Rightarrow> bool" where
  "thread_ok args g k Not_a_thread =
     (qlock g \<noteq> Some k \<and> (k = 0 \<longrightarrow> pushed g = [] \<and> \<not> done_flag g))"
| "thread_ok args g k (Thread a l) =
     (a = word_of_nat k \<and> my_id l = a \<and>
      (holds_qlock (pc l) \<longleftrightarrow> qlock g = Some k) \<and>
      0 \<le> sint (my_count l) \<and> 0 \<le> sint (my_sum l) \<and>
      (if k = 0
       then producer_ok (sint (total_work args)) g (pc l) (sint (loop_i l)) \<and>
            my_count l = 0 \<and> my_sum l = 0
       else consumer_ok g (pc l)) \<and>
      (passed (pc l) \<longrightarrow> int (length (popped g)) = sint (total_work args)))"

fun count_of :: "queue_local thread \<Rightarrow> int" where
  "count_of Not_a_thread = 0"
| "count_of (Thread a l) = sint (my_count l)"

fun sum_of :: "queue_local thread \<Rightarrow> int" where
  "sum_of Not_a_thread = 0"
| "sum_of (Thread a l) = sint (my_sum l)"

fun added_count_of :: "queue_local thread \<Rightarrow> int" where
  "added_count_of Not_a_thread = 0"
| "added_count_of (Thread a l) = (if at_barrier (pc l) then sint (my_count l) else 0)"

fun added_sum_of :: "queue_local thread \<Rightarrow> int" where
  "added_sum_of Not_a_thread = 0"
| "added_sum_of (Thread a l) = (if added_sum (pc l) then sint (my_sum l) else 0)"

definition queue_inv :: "arg_t \<Rightarrow> queue_local thread list \<Rightarrow> queue_shared \<Rightarrow> bool" where
  "queue_inv args ths g =
     ((\<forall>k<length ths. thread_ok args g k (ths ! k)) \<and>
      (ths = [] \<longrightarrow> g = queue_init) \<and>
      (\<forall>k. qlock g = Some k \<longrightarrow> k < length ths) \<and>
      pushed g = items (length (pushed g)) \<and>
      map snd (popped g) @ my_queue g = pushed g \<and>
      int (length (pushed g)) \<le> max 0 (sint (total_work args)) \<and>
      (\<forall>p\<in>set (popped g). 0 < fst p \<and> fst p < length ths) \<and>
      sum_list (map count_of ths) = int (length (popped g)) \<and>
      sum_list (map sum_of ths) = triangle (length (popped g)) \<and>
      sint (count_acc g) = sum_list (map added_count_of ths) \<and>
      sint (sum_acc g) = sum_list (map added_sum_of ths))"

lemma sint_word_of_nat: "int k < 2 ^ 31 \<Longrightarrow> sint (word_of_nat k :: 32 word) = int k"
  using sint_sbintrunc' [where 'a = 32, of "int k"]
  by (simp add: signed_take_bit_int_eq_self)

lemma word_of_nat_zero: "int k < 2 ^ 31 \<Longrightarrow> (word_of_nat k :: 32 word) = 0 \<longleftrightarrow> k = 0"
  using sint_word_of_nat [of k] by auto

lemma queue_inv_init: "queue_inv args (replicate n Not_a_thread) queue_init"
  by (simp add: queue_inv_def queue_init_def sum_list_replicate items_def)

lemma queue_inv_launch:
  assumes inv: "queue_inv args ths g" and k: "k < length ths" and b: "int k < sint (num_threads args)"
    and th: "ths ! k = Not_a_thread"
  shows "queue_inv args (ths[k := Thread (word_of_nat k) (queue_start (word_of_nat k))]) g"
proof -
  have "int k < 2 ^ 31" using b sint_lt [of "num_threads args"] by simp
  then have z: "(word_of_nat k :: 32 word) = 0 \<longleftrightarrow> k = 0" by (rule word_of_nat_zero)
  from inv k th have nk: "thread_ok args g k Not_a_thread" by (auto simp: queue_inv_def)
  have new: "thread_ok args g k (Thread (word_of_nat k) (queue_start (word_of_nat k)))"
    using nk z by (auto simp: queue_start_def)
  have "thread_ok args g u ((ths[k := Thread (word_of_nat k) (queue_start (word_of_nat k))]) ! u)"
    if "u < length ths" for u
    using that new inv by (cases "u = k") (auto simp: queue_inv_def)
  then show ?thesis
    using inv k th unfolding queue_inv_def
    by (auto simp: sum_list_map_update queue_start_def)
qed


lemma thread_ok_frame:
  assumes ok: "thread_ok args g u th"
    and lk: "(qlock g' = Some u) = (qlock g = Some u)"
    and pr: "u = 0 \<Longrightarrow> pushed g' = pushed g \<and> done_flag g' = done_flag g"
    and hd: "u \<noteq> 0 \<Longrightarrow> qlock g = Some u \<Longrightarrow> my_queue g' = my_queue g"
    and ex: "u \<noteq> 0 \<Longrightarrow> done_flag g \<Longrightarrow> my_queue g = [] \<Longrightarrow> done_flag g' \<and> my_queue g' = []"
    and pp: "length (popped g') = length (popped g) \<or>
             int (length (popped g)) \<noteq> sint (total_work args)"
  shows "thread_ok args g' u th"
proof (cases th)
  case Not_a_thread
  with ok lk pr show ?thesis by auto
next
  case (Thread a l)
  show ?thesis
  proof (cases "u = 0")
    case True
    with Thread ok lk pr pp show ?thesis by (cases "pc l") auto
  next
    case False
    with Thread ok lk hd ex pp show ?thesis by (cases "pc l") auto
  qed
qed

lemma queue_inv_step:
  assumes inv: "queue_inv args ths g" and k: "k < length ths" and th: "ths ! k = Thread a l"
    and new: "thread_ok args g' k (Thread a l')"
    and frame: "\<And>u. u < length ths \<Longrightarrow> u \<noteq> k \<Longrightarrow> thread_ok args g' u (ths ! u)"
    and lock: "\<forall>u. qlock g' = Some u \<longrightarrow> u < length ths"
    and pu: "pushed g' = items (length (pushed g'))"
    and cons: "map snd (popped g') @ my_queue g' = pushed g'"
    and bound: "int (length (pushed g')) \<le> max 0 (sint (total_work args))"
    and poppers: "\<forall>p\<in>set (popped g'). 0 < fst p \<and> fst p < length ths"
    and cnt: "sint (my_count l') - sint (my_count l) =
              int (length (popped g')) - int (length (popped g))"
    and sm: "sint (my_sum l') - sint (my_sum l) =
             triangle (length (popped g')) - triangle (length (popped g))"
    and ac: "sint (count_acc g') - sint (count_acc g) =
             added_count_of (Thread a l') - added_count_of (Thread a l)"
    and asm: "sint (sum_acc g') - sint (sum_acc g) =
              added_sum_of (Thread a l') - added_sum_of (Thread a l)"
  shows "queue_inv args (ths[k := Thread a l']) g'"
proof -
  have "thread_ok args g' u ((ths[k := Thread a l']) ! u)" if "u < length ths" for u
    using that new frame [of u] k by (cases "u = k") auto
  moreover have "ths[k := Thread a l'] \<noteq> []" using k by auto
  moreover have "sum_list (map count_of (ths[k := Thread a l'])) = int (length (popped g'))"
    using inv k th cnt by (simp add: queue_inv_def sum_list_map_update)
  moreover have "sum_list (map sum_of (ths[k := Thread a l'])) = triangle (length (popped g'))"
    using inv k th sm by (simp add: queue_inv_def sum_list_map_update)
  moreover have "sint (count_acc g') = sum_list (map added_count_of (ths[k := Thread a l']))"
    using inv k th ac by (simp add: queue_inv_def sum_list_map_update)
  moreover have "sint (sum_acc g') = sum_list (map added_sum_of (ths[k := Thread a l']))"
    using inv k th asm by (simp add: queue_inv_def sum_list_map_update)
  ultimately show ?thesis
    using lock pu cons bound poppers unfolding queue_inv_def by simp
qed


lemma length_items [simp]: "length (items m) = m"
  by (simp add: items_def)

lemma items_Suc: "items (Suc m) = items m @ [word_of_nat m]"
  by (simp add: items_def)

lemma nth_items: "j < m \<Longrightarrow> items m ! j = word_of_nat j"
  by (simp add: items_def)

lemma front_item:
  assumes "xs @ y # ys = items m"
  shows "y = word_of_nat (length xs)" and "length xs < m"
proof -
  from assms have "length (xs @ y # ys) = m" by (metis length_items)
  then show l: "length xs < m" by simp
  have "(xs @ y # ys) ! length xs = y" by simp
  with assms l show "y = word_of_nat (length xs)" by (simp add: nth_items)
qed

lemma triangle_closed: "2 * triangle q = int q * (int q - 1)"
  by (induction q) (auto simp: algebra_simps)

lemma triangle_bound: "int q < 2 ^ 31 \<Longrightarrow> triangle q < 2 ^ 62"
proof -
  assume q: "int q < 2 ^ 31"
  have "int q * (int q - 1) \<le> int q * int q"
    by (rule mult_left_mono) simp_all
  also have "\<dots> \<le> 2 ^ 31 * 2 ^ 31"
    by (rule mult_mono) (use q in auto)
  finally show ?thesis using triangle_closed [of q] by simp
qed

lemma triangle_nonneg: "0 \<le> triangle q"
  by (induction q) auto

lemma elem_le_sum_list:
  fixes f :: "'a \<Rightarrow> int"
  assumes "\<And>x. x \<in> set xs \<Longrightarrow> 0 \<le> f x" and "k < length xs"
  shows "f (xs ! k) \<le> sum_list (map f xs)"
proof -
  have "sum_list (map f xs) = sum_list (map f (xs[k := xs ! k]))" by simp
  have "0 \<le> sum_list (map f (take k xs))" "0 \<le> sum_list (map f (drop (Suc k) xs))"
    using assms(1) by (auto intro!: sum_list_nonneg_int dest: in_set_takeD in_set_dropD)
  moreover have "xs = take k xs @ xs ! k # drop (Suc k) xs"
    using assms(2) by (rule id_take_nth_drop)
  then have "sum_list (map f xs) =
      sum_list (map f (take k xs)) + f (xs ! k) + sum_list (map f (drop (Suc k) xs))"
    by (metis add.assoc map_append sum_list.Cons sum_list.append list.simps(9))
  ultimately show ?thesis by simp
qed

lemma sint32_add:
  "- (2 ^ 31) \<le> sint (a :: 32 word) + sint (b :: 32 word) \<Longrightarrow> sint a + sint b < 2 ^ 31 \<Longrightarrow>
   sint (a + b) = sint a + sint b"
  by (simp add: sint_word_ariths signed_take_bit_int_eq_self)

lemma sint64_add:
  "- (2 ^ 63) \<le> sint (a :: 64 word) + sint (b :: 64 word) \<Longrightarrow> sint a + sint b < 2 ^ 63 \<Longrightarrow>
   sint (a + b) = sint a + sint b"
  by (simp add: sint_word_ariths signed_take_bit_int_eq_self)

lemma sint_scast_32_64: "sint (scast (x :: 32 word) :: 64 word) = sint x"
  by (simp add: sint_up_scast is_up)

lemma queue_inv_facts:
  assumes "queue_inv args ths g"
  shows "\<And>u. u < length ths \<Longrightarrow> thread_ok args g u (ths ! u)"
    and "\<forall>u. qlock g = Some u \<longrightarrow> u < length ths"
    and "pushed g = items (length (pushed g))"
    and "map snd (popped g) @ my_queue g = pushed g"
    and "int (length (pushed g)) \<le> max 0 (sint (total_work args))"
    and "\<forall>p\<in>set (popped g). 0 < fst p \<and> fst p < length ths"
    and "sum_list (map count_of ths) = int (length (popped g))"
    and "sum_list (map sum_of ths) = triangle (length (popped g))"
    and "sint (count_acc g) = sum_list (map added_count_of ths)"
    and "sint (sum_acc g) = sum_list (map added_sum_of ths)"
  using assms by (simp_all add: queue_inv_def)

lemma count_of_nonneg: "thread_ok args g u th \<Longrightarrow> 0 \<le> count_of th"
  by (cases th) auto

lemma sum_of_nonneg: "thread_ok args g u th \<Longrightarrow> 0 \<le> sum_of th"
  by (cases th) auto

lemma added_le:
  assumes "thread_ok args g u th"
  shows "0 \<le> added_count_of th" and "added_count_of th \<le> count_of th"
    and "0 \<le> added_sum_of th" and "added_sum_of th \<le> sum_of th"
  using assms by (cases th; auto)+

lemma popped_le_pushed:
  assumes "queue_inv args ths g"
  shows "length (popped g) \<le> length (pushed g)"
proof -
  have "length (map snd (popped g) @ my_queue g) = length (pushed g)"
    using queue_inv_facts(4) [OF assms] by simp
  then show ?thesis by simp
qed

lemma pushed_bound:
  assumes "queue_inv args ths g"
  shows "int (length (pushed g)) < 2 ^ 31"
proof -
  have "max 0 (sint (total_work args)) < 2 ^ 31" using sint_lt [of "total_work args"] by simp
  with queue_inv_facts(5) [OF assms] show ?thesis by simp
qed

text \<open>What a thread has not yet added is at most what all threads hold.\<close>

lemma pending_count:
  assumes inv: "queue_inv args ths g" and k: "k < length ths"
  shows "sint (count_acc g) + (count_of (ths ! k) - added_count_of (ths ! k)) \<le> int (length (popped g))"
    and "0 \<le> sint (count_acc g)"
proof -
  let ?h = "\<lambda>th. count_of th - added_count_of th"
  have nn: "0 \<le> ?h x" if "x \<in> set ths" for x
  proof -
    from that obtain u where "u < length ths" "ths ! u = x" by (auto simp: in_set_conv_nth)
    with queue_inv_facts(1) [OF inv] have "thread_ok args g u x" by auto
    from added_le(2) [OF this] show ?thesis by simp
  qed
  have "?h (ths ! k) \<le> sum_list (map ?h ths)" using nn k by (rule elem_le_sum_list)
  also have "\<dots> = sum_list (map count_of ths) - sum_list (map added_count_of ths)"
    by (simp add: sum_list_subtractf)
  finally show "sint (count_acc g) + (count_of (ths ! k) - added_count_of (ths ! k)) \<le> int (length (popped g))"
    using queue_inv_facts(7,9) [OF inv] by simp
  have "0 \<le> sum_list (map added_count_of ths)"
  proof (rule sum_list_nonneg_int)
    fix x assume "x \<in> set ths"
    then obtain u where "u < length ths" "ths ! u = x" by (auto simp: in_set_conv_nth)
    with queue_inv_facts(1) [OF inv] have "thread_ok args g u x" by auto
    then show "0 \<le> added_count_of x" by (rule added_le)
  qed
  then show "0 \<le> sint (count_acc g)" using queue_inv_facts(9) [OF inv] by simp
qed

lemma pending_sum:
  assumes inv: "queue_inv args ths g" and k: "k < length ths"
  shows "sint (sum_acc g) + (sum_of (ths ! k) - added_sum_of (ths ! k)) \<le> triangle (length (popped g))"
    and "0 \<le> sint (sum_acc g)"
proof -
  let ?h = "\<lambda>th. sum_of th - added_sum_of th"
  have nn: "0 \<le> ?h x" if "x \<in> set ths" for x
  proof -
    from that obtain u where "u < length ths" "ths ! u = x" by (auto simp: in_set_conv_nth)
    with queue_inv_facts(1) [OF inv] have "thread_ok args g u x" by auto
    from added_le(4) [OF this] show ?thesis by simp
  qed
  have "?h (ths ! k) \<le> sum_list (map ?h ths)" using nn k by (rule elem_le_sum_list)
  also have "\<dots> = sum_list (map sum_of ths) - sum_list (map added_sum_of ths)"
    by (simp add: sum_list_subtractf)
  finally show "sint (sum_acc g) + (sum_of (ths ! k) - added_sum_of (ths ! k)) \<le> triangle (length (popped g))"
    using queue_inv_facts(8,10) [OF inv] by simp
  have "0 \<le> sum_list (map added_sum_of ths)"
  proof (rule sum_list_nonneg_int)
    fix x assume "x \<in> set ths"
    then obtain u where "u < length ths" "ths ! u = x" by (auto simp: in_set_conv_nth)
    with queue_inv_facts(1) [OF inv] have "thread_ok args g u x" by auto
    then show "0 \<le> added_sum_of x" by (rule added_le)
  qed
  then show "0 \<le> sint (sum_acc g)" using queue_inv_facts(10) [OF inv] by simp
qed

lemma queue_inv_work:
  assumes inv: "queue_inv args ths g" and k: "k < length ths"
    and len: "int (length ths) = sint (num_threads args)"
    and th: "ths ! k = Thread (word_of_nat k) l"
    and act: "queue_workload args k l g = Some (l', g')"
  shows "queue_inv args (ths[k := Thread (word_of_nat k) l']) g'"
proof -
  note f = queue_inv_facts [OF inv]
  have okk: "thread_ok args g k (Thread (word_of_nat k) l)" using f(1) [OF k] th by simp
  have k31: "int k < 2 ^ 31" using k len sint_lt [of "num_threads args"] by simp
  have idz: "my_id l = 0 \<longleftrightarrow> k = 0" using okk word_of_nat_zero [OF k31] by simp
  have same: "thread_ok args g' u (ths ! u)" if "u < length ths"
    "qlock g' = qlock g" "pushed g' = pushed g" "done_flag g' = done_flag g"
    "my_queue g' = my_queue g" "popped g' = popped g" for u g'
    using f(1) [OF that(1)] by (rule thread_ok_frame) (use that in auto)
  show ?thesis
  proof (cases "pc l")
    case P_loop
    with act have l': "l' = l\<lparr>pc := (if loop_i l <s total_work args then P_lock else P_set_done)\<rparr>"
      and g': "g' = g" by (auto simp: queue_workload_def)
    from okk P_loop have k0: "k = 0" by (auto split: if_splits)
    show ?thesis unfolding l' g'
      using inv k th
    proof (rule queue_inv_step)
      show "thread_ok args g k (Thread (word_of_nat k) (l\<lparr>pc := (if loop_i l <s total_work args then P_lock else P_set_done)\<rparr>))"
        using okk P_loop k0 by (auto simp: word_sless_alt)
    qed (use f same P_loop in auto)
  next
    case P_lock
    with act have fr: "qlock g = None" and l': "l' = l\<lparr>pc := P_push\<rparr>"
      and g': "g' = g\<lparr>qlock := Some k\<rparr>" by (auto simp: queue_workload_def split: if_splits)
    from okk P_lock have k0: "k = 0" by (auto split: if_splits)
    show ?thesis unfolding l' g'
      using inv k th
    proof (rule queue_inv_step)
      show "thread_ok args (g\<lparr>qlock := Some k\<rparr>) k (Thread (word_of_nat k) (l\<lparr>pc := P_push\<rparr>))"
        using okk P_lock k0 by auto
      show "thread_ok args (g\<lparr>qlock := Some k\<rparr>) u (ths ! u)" if "u < length ths" "u \<noteq> k" for u
        using f(1) [OF that(1)] by (rule thread_ok_frame) (use that fr in auto)
    qed (use f k P_lock in auto)
  next
    case P_push
    with act have l': "l' = l\<lparr>pc := P_unlock\<rparr>"
      and g': "g' = g\<lparr>my_queue := my_queue g @ [loop_i l], pushed := pushed g @ [loop_i l]\<rparr>"
      by (auto simp: queue_workload_def)
    from okk P_push have k0: "k = 0" by (auto split: if_splits)
    with okk P_push have p: "0 \<le> sint (loop_i l)" "sint (loop_i l) < sint (total_work args)"
      "int (length (pushed g)) = sint (loop_i l)" "\<not> done_flag g" "qlock g = Some k"
      by auto
    have "word_of_int (sint (loop_i l)) = loop_i l" by simp
    with p(3) have li: "loop_i l = word_of_nat (length (pushed g))"
      by (metis of_int_of_nat_eq)
    show ?thesis unfolding l' g'
      using inv k th
    proof (rule queue_inv_step)
      show "thread_ok args (g\<lparr>my_queue := my_queue g @ [loop_i l], pushed := pushed g @ [loop_i l]\<rparr>) k
          (Thread (word_of_nat k) (l\<lparr>pc := P_unlock\<rparr>))"
        using okk P_push k0 by auto
      show "thread_ok args (g\<lparr>my_queue := my_queue g @ [loop_i l], pushed := pushed g @ [loop_i l]\<rparr>) u (ths ! u)"
        if "u < length ths" "u \<noteq> k" for u
        using f(1) [OF that(1)] by (rule thread_ok_frame) (use that p k0 in auto)
      show "pushed (g\<lparr>my_queue := my_queue g @ [loop_i l], pushed := pushed g @ [loop_i l]\<rparr>) =
          items (length (pushed (g\<lparr>my_queue := my_queue g @ [loop_i l], pushed := pushed g @ [loop_i l]\<rparr>)))"
        using f(3) li by (simp add: items_Suc)
    qed (use f p P_push in auto)
  next
    case P_unlock
    with act have l': "l' = l\<lparr>pc := P_loop, loop_i := loop_i l + 1\<rparr>"
      and g': "g' = g\<lparr>qlock := None\<rparr>" by (auto simp: queue_workload_def)
    from okk P_unlock have k0: "k = 0" by (auto split: if_splits)
    with okk P_unlock have p: "0 \<le> sint (loop_i l)" "sint (loop_i l) < sint (total_work args)"
      "int (length (pushed g)) = sint (loop_i l) + 1" "\<not> done_flag g" "qlock g = Some k"
      by auto
    have succ: "sint (loop_i l + 1) = sint (loop_i l) + 1" using p(2) by (rule sint_succ)
    show ?thesis unfolding l' g'
      using inv k th
    proof (rule queue_inv_step)
      show "thread_ok args (g\<lparr>qlock := None\<rparr>) k (Thread (word_of_nat k) (l\<lparr>pc := P_loop, loop_i := loop_i l + 1\<rparr>))"
        using okk P_unlock k0 p succ by auto
      show "thread_ok args (g\<lparr>qlock := None\<rparr>) u (ths ! u)" if "u < length ths" "u \<noteq> k" for u
        using f(1) [OF that(1)] by (rule thread_ok_frame) (use that p in auto)
    qed (use f P_unlock in auto)
  next
    case P_set_done
    with act have l': "l' = l\<lparr>pc := W_barrier\<rparr>"
      and g': "g' = g\<lparr>done_flag := True\<rparr>" by (auto simp: queue_workload_def)
    from okk P_set_done have k0: "k = 0" by (auto split: if_splits)
    show ?thesis unfolding l' g'
      using inv k th
    proof (rule queue_inv_step)
      show "thread_ok args (g\<lparr>done_flag := True\<rparr>) k (Thread (word_of_nat k) (l\<lparr>pc := W_barrier\<rparr>))"
        using okk P_set_done k0 by auto
      show "thread_ok args (g\<lparr>done_flag := True\<rparr>) u (ths ! u)" if "u < length ths" "u \<noteq> k" for u
        using f(1) [OF that(1)] by (rule thread_ok_frame) (use that k0 in auto)
    qed (use f P_set_done okk k0 in auto)
  next
    case Q_lock
    with act have fr: "qlock g = None" and l': "l' = l\<lparr>pc := Q_empty\<rparr>"
      and g': "g' = g\<lparr>qlock := Some k\<rparr>" by (auto simp: queue_workload_def split: if_splits)
    show ?thesis unfolding l' g'
      using inv k th
    proof (rule queue_inv_step)
      show "thread_ok args (g\<lparr>qlock := Some k\<rparr>) k (Thread (word_of_nat k) (l\<lparr>pc := Q_empty\<rparr>))"
        using okk Q_lock by (auto split: if_splits)
      show "thread_ok args (g\<lparr>qlock := Some k\<rparr>) u (ths ! u)" if "u < length ths" "u \<noteq> k" for u
        using f(1) [OF that(1)] by (rule thread_ok_frame) (use that fr in auto)
    qed (use f k Q_lock in auto)
  next
    case Q_empty
    with act have l': "l' = l\<lparr>pc := (if my_queue g = [] then Q_done else Q_else)\<rparr>"
      and g': "g' = g" by (auto simp: queue_workload_def)
    show ?thesis unfolding l' g'
      using inv k th
    proof (rule queue_inv_step)
      show "thread_ok args g k (Thread (word_of_nat k) (l\<lparr>pc := (if my_queue g = [] then Q_done else Q_else)\<rparr>))"
        using okk Q_empty by (auto split: if_splits)
    qed (use f same Q_empty in auto)
  next
    case Q_done
    with act have l': "l' = l\<lparr>pc := (if done_flag g then Q_break else Q_else)\<rparr>"
      and g': "g' = g" by (auto simp: queue_workload_def)
    show ?thesis unfolding l' g'
      using inv k th
    proof (rule queue_inv_step)
      show "thread_ok args g k (Thread (word_of_nat k) (l\<lparr>pc := (if done_flag g then Q_break else Q_else)\<rparr>))"
        using okk Q_done by (auto split: if_splits)
    qed (use f same Q_done in auto)
  next
    case Q_else
    with act have l': "l' = l\<lparr>pc := (if my_queue g \<noteq> [] then Q_pop else Q_unlock)\<rparr>"
      and g': "g' = g" by (auto simp: queue_workload_def)
    show ?thesis unfolding l' g'
      using inv k th
    proof (rule queue_inv_step)
      show "thread_ok args g k (Thread (word_of_nat k) (l\<lparr>pc := (if my_queue g \<noteq> [] then Q_pop else Q_unlock)\<rparr>))"
        using okk Q_else by (auto split: if_splits)
    qed (use f same Q_else in auto)
  next
    case Q_unlock
    with act have l': "l' = l\<lparr>pc := Q_lock\<rparr>"
      and g': "g' = g\<lparr>qlock := None\<rparr>" by (auto simp: queue_workload_def)
    from okk Q_unlock have h: "qlock g = Some k" by auto
    show ?thesis unfolding l' g'
      using inv k th
    proof (rule queue_inv_step)
      show "thread_ok args (g\<lparr>qlock := None\<rparr>) k (Thread (word_of_nat k) (l\<lparr>pc := Q_lock\<rparr>))"
        using okk Q_unlock by (auto split: if_splits)
      show "thread_ok args (g\<lparr>qlock := None\<rparr>) u (ths ! u)" if "u < length ths" "u \<noteq> k" for u
        using f(1) [OF that(1)] by (rule thread_ok_frame) (use that h in auto)
    qed (use f Q_unlock in auto)
  next
    case Q_break
    with act have l': "l' = l\<lparr>pc := Q_print\<rparr>"
      and g': "g' = g\<lparr>qlock := None\<rparr>" by (auto simp: queue_workload_def)
    from okk Q_break have h: "qlock g = Some k" by auto
    show ?thesis unfolding l' g'
      using inv k th
    proof (rule queue_inv_step)
      show "thread_ok args (g\<lparr>qlock := None\<rparr>) k (Thread (word_of_nat k) (l\<lparr>pc := Q_print\<rparr>))"
        using okk Q_break by (auto split: if_splits)
      show "thread_ok args (g\<lparr>qlock := None\<rparr>) u (ths ! u)" if "u < length ths" "u \<noteq> k" for u
        using f(1) [OF that(1)] by (rule thread_ok_frame) (use that h in auto)
    qed (use f Q_break in auto)
  next
    case Q_print
    with act have l': "l' = l\<lparr>pc := Q_add_sum\<rparr>"
      and g': "g' = g\<lparr>stdout := stdout g @ [Thread_count_sum (my_id l) (my_count l) (my_sum l)]\<rparr>"
      by (auto simp: queue_workload_def)
    show ?thesis unfolding l' g'
      using inv k th
    proof (rule queue_inv_step)
      show "thread_ok args (g\<lparr>stdout := stdout g @ [Thread_count_sum (my_id l) (my_count l) (my_sum l)]\<rparr>) k
          (Thread (word_of_nat k) (l\<lparr>pc := Q_add_sum\<rparr>))"
        using okk Q_print by (auto split: if_splits)
    qed (use f same Q_print in auto)
  next
    case W_print
    with act have l': "l' = l\<lparr>pc := W_done\<rparr>"
      and g': "g' = g\<lparr>stdout := stdout g @ [Total_sum (sum_acc g)]\<rparr>"
      by (auto simp: queue_workload_def)
    show ?thesis unfolding l' g'
      using inv k th
    proof (rule queue_inv_step)
      show "thread_ok args (g\<lparr>stdout := stdout g @ [Total_sum (sum_acc g)]\<rparr>) k
          (Thread (word_of_nat k) (l\<lparr>pc := W_done\<rparr>))"
        using okk W_print by (auto split: if_splits)
    qed (use f same W_print in auto)
  next
    case W_done
    with act show ?thesis by (simp add: queue_workload_def)
  next
    case W_undefined
    with act show ?thesis by (simp add: queue_workload_def)
  next
    case Q_pop
    from okk Q_pop have k0: "k \<noteq> 0" and ne: "my_queue g \<noteq> []" and h: "qlock g = Some k"
      and nn: "0 \<le> sint (my_count l)" "0 \<le> sint (my_sum l)"
      by (auto split: if_splits)
    from ne obtain x xs where q: "my_queue g = x # xs" by (cases "my_queue g") auto
    with Q_pop act have l': "l' = l\<lparr>pc := Q_unlock, my_sum := my_sum l + scast x, my_count := my_count l + 1\<rparr>"
      and g': "g' = g\<lparr>my_queue := xs, popped := popped g @ [(k, x)]\<rparr>"
      by (auto simp: queue_workload_def)
    have "map snd (popped g) @ x # xs = items (length (pushed g))" using f(3,4) q by simp
    from front_item [OF this] have x: "x = word_of_nat (length (popped g))"
      and lt: "length (popped g) < length (pushed g)" by simp_all
    note pb = pushed_bound [OF inv]
    have sx: "sint x = int (length (popped g))" unfolding x using lt pb by (intro sint_word_of_nat) simp
    have ltn: "int (length (popped g)) < sint (total_work args)" using lt f(5) by simp
    have "count_of (ths ! k) \<le> sum_list (map count_of ths)"
    proof (rule elem_le_sum_list)
      fix y assume "y \<in> set ths"
      then obtain u where "u < length ths" "ths ! u = y" by (auto simp: in_set_conv_nth)
      with f(1) [of u] show "0 \<le> count_of y" by (auto intro: count_of_nonneg)
    qed (rule k)
    then have c: "sint (my_count l) \<le> int (length (popped g))" using th f(7) by simp
    have "sum_of (ths ! k) \<le> sum_list (map sum_of ths)"
    proof (rule elem_le_sum_list)
      fix y assume "y \<in> set ths"
      then obtain u where "u < length ths" "ths ! u = y" by (auto simp: in_set_conv_nth)
      with f(1) [of u] show "0 \<le> sum_of y" by (auto intro: sum_of_nonneg)
    qed (rule k)
    then have "sint (my_sum l) \<le> triangle (length (popped g))" using th f(8) by simp
    moreover have "triangle (length (popped g)) < 2 ^ 62"
      using lt pb by (intro triangle_bound) simp
    ultimately have sb: "sint (my_sum l) < 2 ^ 62" by simp
    have c': "sint (my_count l + 1) = sint (my_count l) + 1"
      using sint32_add [of "my_count l" 1] c lt pb nn by simp
    have "sint (my_sum l + scast x) = sint (my_sum l) + sint (scast x :: 64 word)"
      using sb nn sx lt pb by (intro sint64_add) (simp_all add: sint_scast_32_64)
    then have s': "sint (my_sum l + scast x) = sint (my_sum l) + int (length (popped g))"
      using sx by (simp add: sint_scast_32_64)
    show ?thesis unfolding l' g'
      using inv k th
    proof (rule queue_inv_step)
      show "thread_ok args (g\<lparr>my_queue := xs, popped := popped g @ [(k, x)]\<rparr>) k
          (Thread (word_of_nat k) (l\<lparr>pc := Q_unlock, my_sum := my_sum l + scast x, my_count := my_count l + 1\<rparr>))"
        using okk Q_pop k0 c' s' nn by auto
      show "thread_ok args (g\<lparr>my_queue := xs, popped := popped g @ [(k, x)]\<rparr>) u (ths ! u)"
        if "u < length ths" "u \<noteq> k" for u
        using f(1) [OF that(1)] by (rule thread_ok_frame) (use that h q ltn in auto)
      show "map snd (popped (g\<lparr>my_queue := xs, popped := popped g @ [(k, x)]\<rparr>)) @
          my_queue (g\<lparr>my_queue := xs, popped := popped g @ [(k, x)]\<rparr>) =
          pushed (g\<lparr>my_queue := xs, popped := popped g @ [(k, x)]\<rparr>)"
        using f(4) q by simp
    qed (use f Q_pop k k0 c' s' in auto)
  next
    case Q_add_sum
    with act have l': "l' = l\<lparr>pc := Q_add_count\<rparr>"
      and g': "g' = g\<lparr>sum_acc := sum_acc g + my_sum l\<rparr>"
      by (auto simp: queue_workload_def)
    from okk have nn: "0 \<le> sint (my_sum l)" by simp
    from pending_sum [OF inv k] th Q_add_sum
    have b: "sint (sum_acc g) + sint (my_sum l) \<le> triangle (length (popped g))"
      and nn': "0 \<le> sint (sum_acc g)" by simp_all
    have "int (length (popped g)) < 2 ^ 31"
      using popped_le_pushed [OF inv] pushed_bound [OF inv] by simp
    then have "triangle (length (popped g)) < 2 ^ 62" by (rule triangle_bound)
    with b nn nn' have up: "sint (sum_acc g + my_sum l) = sint (sum_acc g) + sint (my_sum l)"
      by (intro sint64_add) simp_all
    show ?thesis unfolding l' g'
      using inv k th
    proof (rule queue_inv_step)
      show "thread_ok args (g\<lparr>sum_acc := sum_acc g + my_sum l\<rparr>) k
          (Thread (word_of_nat k) (l\<lparr>pc := Q_add_count\<rparr>))"
        using okk Q_add_sum by (auto split: if_splits)
    qed (use f same Q_add_sum up in auto)
  next
    case Q_add_count
    with act have l': "l' = l\<lparr>pc := W_barrier\<rparr>"
      and g': "g' = g\<lparr>count_acc := count_acc g + my_count l\<rparr>"
      by (auto simp: queue_workload_def)
    from okk have nn: "0 \<le> sint (my_count l)" by simp
    from pending_count [OF inv k] th Q_add_count
    have b: "sint (count_acc g) + sint (my_count l) \<le> int (length (popped g))"
      and nn': "0 \<le> sint (count_acc g)" by simp_all
    have "int (length (popped g)) < 2 ^ 31"
      using popped_le_pushed [OF inv] pushed_bound [OF inv] by simp
    with b nn nn' have up: "sint (count_acc g + my_count l) = sint (count_acc g) + sint (my_count l)"
      by (intro sint32_add) simp_all
    show ?thesis unfolding l' g'
      using inv k th
    proof (rule queue_inv_step)
      show "thread_ok args (g\<lparr>count_acc := count_acc g + my_count l\<rparr>) k
          (Thread (word_of_nat k) (l\<lparr>pc := W_barrier\<rparr>))"
        using okk Q_add_count by (auto split: if_splits)
    qed (use f same Q_add_count up in auto)
  next
    case W_barrier
    with act have l': "l' = l\<lparr>pc := (if count_acc g \<noteq> total_work args then W_barrier
                          else if my_id l = 0 then W_print else W_done)\<rparr>"
      and g': "g' = g" by (auto simp: queue_workload_def)
    have all: "int (length (popped g)) = sint (total_work args)" if "count_acc g = total_work args"
    proof -
      from pending_count [OF inv k] th W_barrier
      have "sint (count_acc g) \<le> int (length (popped g))" "0 \<le> sint (count_acc g)" by simp_all
      moreover have "int (length (popped g)) \<le> max 0 (sint (total_work args))"
        using popped_le_pushed [OF inv] f(5) by simp
      ultimately show ?thesis using that by simp
    qed
    show ?thesis unfolding l' g'
      using inv k th
    proof (rule queue_inv_step)
      show "thread_ok args g k (Thread (word_of_nat k) (l\<lparr>pc := (if count_acc g \<noteq> total_work args then W_barrier
                          else if my_id l = 0 then W_print else W_done)\<rparr>))"
        using okk W_barrier idz all by (auto split: if_splits)
    qed (use f same W_barrier in auto)
  qed
qed

lemma reach_queue_inv:
  assumes "run_queue_test args s"
  shows "queue_inv args (threads s) (shared s)"
  using assms unfolding run_queue_test_def
proof (rule workload_invariant)
  show "queue_inv args (replicate n Not_a_thread) queue_init" for n
    by (rule queue_inv_init)
next
  fix ths g k
  assume "queue_inv args ths g" "k < length ths" "int k < sint (num_threads args)"
    "ths ! k = Not_a_thread"
  then show "queue_inv args (ths[k := Thread (word_of_nat k) (start (queue_task args) (word_of_nat k))]) g"
    by (simp add: queue_task_def queue_inv_launch)
next
  fix ths g k l l' g'
  assume "queue_inv args ths g" "k < length ths" "int (length ths) = sint (num_threads args)"
    "ths ! k = Thread (word_of_nat k) l" "act (queue_task args) k l g = Some (l', g')"
  then show "queue_inv args (ths[k := Thread (word_of_nat k) l']) g'"
    by (simp add: queue_task_def queue_inv_work)
qed

lemma sum_list_map_cong_nth:
  fixes f h :: "'a \<Rightarrow> int"
  assumes "\<And>u. u < length xs \<Longrightarrow> f (xs ! u) = h (xs ! u)"
  shows "sum_list (map f xs) = sum_list (map h xs)"
proof -
  have "map f xs = map h xs" by (rule nth_equalityI) (use assms in auto)
  then show ?thesis by (rule arg_cong)
qed

text \<open>What holds once every thread of the queue test has returned.\<close>

lemma queue_all_done:
  assumes inv: "queue_inv args ths g" and ne: "ths \<noteq> []"
    and dn: "\<And>u. u < length ths \<Longrightarrow> \<exists>a l. ths ! u = Thread a l \<and> pc l = W_done"
  shows "0 \<le> sint (total_work args)" and "count_acc g = total_work args"
    and "sint (sum_acc g) = triangle (nat (sint (total_work args)))"
    and "my_queue g = []" and "map snd (popped g) = pushed g"
    and "pushed g = items (nat (sint (total_work args)))" and "done_flag g"
proof -
  note f = queue_inv_facts [OF inv]
  from ne have z: "0 < length ths" by simp
  from dn [OF z] obtain a l where l: "ths ! 0 = Thread a l" "pc l = W_done" by blast
  with f(1) [OF z] have q: "int (length (popped g)) = sint (total_work args)"
    and np: "int (length (pushed g)) = max 0 (sint (total_work args))" and d: "done_flag g"
    by auto
  from q show n: "0 \<le> sint (total_work args)" by simp
  from d show "done_flag g" .
  have "sum_list (map added_count_of ths) = sum_list (map count_of ths)"
    by (rule sum_list_map_cong_nth) (use dn in force)
  with f(7,9) q have "sint (count_acc g) = sint (total_work args)" by simp
  then have "(word_of_int (sint (count_acc g)) :: 32 word) = word_of_int (sint (total_work args))"
    by simp
  then show "count_acc g = total_work args" by simp
  have "sum_list (map added_sum_of ths) = sum_list (map sum_of ths)"
    by (rule sum_list_map_cong_nth) (use dn in force)
  with f(8,10) have "sint (sum_acc g) = triangle (length (popped g))" by simp
  moreover have lq: "length (popped g) = nat (sint (total_work args))" using q by simp
  ultimately show "sint (sum_acc g) = triangle (nat (sint (total_work args)))" by simp
  have lp: "length (pushed g) = nat (sint (total_work args))" using np n by simp
  with f(3) show "pushed g = items (nat (sint (total_work args)))" by simp
  have "length (map snd (popped g) @ my_queue g) = length (pushed g)" using f(4) by simp
  with lq lp show e: "my_queue g = []" by simp
  with f(4) show "map snd (popped g) = pushed g" by simp
qed

lemma queue_returned:
  assumes r: "run_queue_test args s" and ret: "returned s"
  shows "all_launched args (threads s)"
    and "\<And>u. u < length (threads s) \<Longrightarrow> \<exists>a l. threads s ! u = Thread a l \<and> pc l = W_done"
proof -
  from r have mi: "main_inv args (queue_task args) s"
    by (simp add: run_queue_test_def reach_main_inv)
  with ret show al: "all_launched args (threads s)"
    by (simp add: main_inv_def returned_def)
  from mi ret have dn: "\<forall>k<length (threads s). is_done (queue_task args) (threads s ! k)"
    by (simp add: main_inv_def returned_def)
  show "\<exists>a l. threads s ! u = Thread a l \<and> pc l = W_done" if "u < length (threads s)" for u
    using dn that by (cases "threads s ! u") (auto simp: is_done_def queue_task_def)
qed

lemma queue_final:
  assumes r: "run_queue_test args s" and ret: "returned s" and nt: "1 \<le> sint (num_threads args)"
  shows "0 \<le> sint (total_work args)" and "count_acc (shared s) = total_work args"
    and "sint (sum_acc (shared s)) = triangle (nat (sint (total_work args)))"
    and "my_queue (shared s) = []" and "map snd (popped (shared s)) = pushed (shared s)"
    and "pushed (shared s) = items (nat (sint (total_work args)))" and "done_flag (shared s)"
proof -
  note q = queue_returned [OF r ret]
  from q(1) nt have ne: "threads s \<noteq> []" by (auto simp: all_launched_def)
  note a = queue_all_done [OF reach_queue_inv [OF r] ne q(2)]
  show "0 \<le> sint (total_work args)" and "count_acc (shared s) = total_work args"
    and "sint (sum_acc (shared s)) = triangle (nat (sint (total_work args)))"
    and "my_queue (shared s) = []" and "map snd (popped (shared s)) = pushed (shared s)"
    and "pushed (shared s) = items (nat (sint (total_work args)))" and "done_flag (shared s)"
    by (simp_all add: a)
qed

lemma queue_final_no_threads:
  assumes r: "run_queue_test args s" and nt: "sint (num_threads args) \<le> 0"
  shows "shared s = queue_init"
proof -
  from r have mi: "main_inv args (queue_task args) s"
    by (simp add: run_queue_test_def reach_main_inv)
  have "threads s = []"
    using mi nt by (cases "pc_main s") (auto simp: main_inv_def all_launched_def)
  with reach_queue_inv [OF r] show ?thesis by (simp add: queue_inv_def)
qed

section \<open>The queue test returns\<close>

text \<open>
  The order that decreases along a well-chosen schedule: first the steps the producer
  has left; then, while the producer works, the steps a consumer has left inside its
  critical section, and afterwards the items left in the queue and the steps the threads
  have left when no further item arrives.
\<close>

fun prod_rem :: "int \<Rightarrow> queue_local thread \<Rightarrow> nat" where
  "prod_rem n Not_a_thread = 0"
| "prod_rem n (Thread a l) =
     (case pc l of
        P_loop \<Rightarrow> nat (4 * (max 0 n - sint (loop_i l)) + 2)
      | P_lock \<Rightarrow> nat (4 * (max 0 n - sint (loop_i l)) + 1)
      | P_push \<Rightarrow> nat (4 * (max 0 n - sint (loop_i l)))
      | P_unlock \<Rightarrow> nat (4 * (max 0 n - sint (loop_i l)) - 1)
      | P_set_done \<Rightarrow> 1
      | _ \<Rightarrow> 0)"

fun cs_rank :: "queue_pc \<Rightarrow> int" where
  "cs_rank Q_empty = 5"
| "cs_rank Q_done = 4"
| "cs_rank Q_else = 3"
| "cs_rank Q_pop = 2"
| "cs_rank Q_unlock = 1"
| "cs_rank Q_break = 1"
| "cs_rank _ = 0"

fun end_rank :: "bool \<Rightarrow> queue_pc \<Rightarrow> int" where
  "end_rank e W_done = 0"
| "end_rank e W_print = 1"
| "end_rank e W_barrier = 2"
| "end_rank e Q_add_count = 3"
| "end_rank e Q_add_sum = 4"
| "end_rank e Q_print = 5"
| "end_rank e Q_break = 6"
| "end_rank e Q_pop = 7"
| "end_rank e Q_else = (if e then 13 else 8)"
| "end_rank e Q_done = 9"
| "end_rank e Q_empty = (if e then 10 else 9)"
| "end_rank e Q_lock = 11"
| "end_rank e Q_unlock = 12"
| "end_rank e _ = 0"

fun cs_of :: "queue_local thread \<Rightarrow> int" where
  "cs_of Not_a_thread = 0"
| "cs_of (Thread a l) = cs_rank (pc l)"

fun end_of :: "bool \<Rightarrow> queue_local thread \<Rightarrow> int" where
  "end_of e Not_a_thread = 0"
| "end_of e (Thread a l) = end_rank e (pc l)"

definition queue_measure :: "arg_t \<Rightarrow> queue_local thread list \<Rightarrow> queue_shared \<Rightarrow> nat \<times> nat" where
  "queue_measure args ths g =
     (prod_rem (sint (total_work args)) (ths ! 0),
      if prod_rem (sint (total_work args)) (ths ! 0) = 0
      then nat (6 * int (length (my_queue g)) + sum_list (map (end_of (my_queue g = [])) ths))
      else nat (sum_list (map cs_of ths)))"

lemma cs_rank_nonneg: "0 \<le> cs_rank p"
  by (cases p) auto

lemma end_rank_nonneg: "0 \<le> end_rank e p"
  by (cases p) auto

lemma cs_of_nonneg: "0 \<le> cs_of th"
  by (cases th) (auto simp: cs_rank_nonneg)

lemma end_of_nonneg: "0 \<le> end_of e th"
  by (cases th) (auto simp: end_rank_nonneg)

lemma end_rank_frame: "\<not> holds_qlock p \<Longrightarrow> end_rank e p = end_rank e' p"
  by (cases p) auto

lemma sum_list_update_int:
  fixes xs :: "int list"
  shows "k < length xs \<Longrightarrow> sum_list (xs[k := v]) = sum_list xs - xs ! k + v"
  by (induction xs arbitrary: k) (auto split: nat.splits)

text \<open>The three ways a step decreases the measure.\<close>

lemma producer_step_decreases:
  assumes "0 < length ths" and "prod_rem (sint (total_work args)) y < prod_rem (sint (total_work args)) (ths ! 0)"
  shows "(queue_measure args (ths[0 := y]) g', queue_measure args ths g) \<in> less_than <*lex*> less_than"
  using assms by (simp add: queue_measure_def)

lemma critical_step_decreases:
  assumes k: "k < length ths" and k0: "k \<noteq> 0"
    and ph: "prod_rem (sint (total_work args)) (ths ! 0) \<noteq> 0"
    and dec: "cs_of y < cs_of (ths ! k)"
  shows "(queue_measure args (ths[k := y]) g', queue_measure args ths g) \<in> less_than <*lex*> less_than"
proof -
  have "sum_list (map cs_of (ths[k := y])) < sum_list (map cs_of ths)"
    using k dec by (simp add: sum_list_map_update)
  moreover have "0 \<le> sum_list (map cs_of (ths[k := y]))"
    by (rule sum_list_nonneg_int) (rule cs_of_nonneg)
  ultimately have "nat (sum_list (map cs_of (ths[k := y]))) < nat (sum_list (map cs_of ths))"
    by simp
  with k0 ph show ?thesis by (simp add: queue_measure_def)
qed

lemma final_step_decreases:
  assumes k: "k < length ths"
    and ph: "prod_rem (sint (total_work args)) (ths ! 0) = 0"
      "prod_rem (sint (total_work args)) ((ths[k := y]) ! 0) = 0"
    and others: "\<And>u a l. u < length ths \<Longrightarrow> u \<noteq> k \<Longrightarrow> ths ! u = Thread a l \<Longrightarrow> \<not> holds_qlock (pc l)"
    and dec: "6 * int (length (my_queue g')) + end_of (my_queue g' = []) y <
              6 * int (length (my_queue g)) + end_of (my_queue g = []) (ths ! k)"
  shows "(queue_measure args (ths[k := y]) g', queue_measure args ths g) \<in> less_than <*lex*> less_than"
proof -
  let ?e = "my_queue g = []" and ?e' = "my_queue g' = []"
  have "map (end_of ?e') (ths[k := y]) = (map (end_of ?e) ths)[k := end_of ?e' y]"
  proof (rule nth_equalityI)
    fix u assume "u < length (map (end_of ?e') (ths[k := y]))"
    then have u: "u < length ths" by simp
    show "map (end_of ?e') (ths[k := y]) ! u = (map (end_of ?e) ths)[k := end_of ?e' y] ! u"
    proof (cases "u = k")
      case True
      with u show ?thesis by simp
    next
      case False
      have "end_of ?e' (ths ! u) = end_of ?e (ths ! u)"
      proof (cases "ths ! u")
        case Not_a_thread
        then show ?thesis by simp
      next
        case (Thread a l)
        with others [OF u False] show ?thesis by (simp add: end_rank_frame [of "pc l" ?e' ?e])
      qed
      with False u show ?thesis by simp
    qed
  qed simp
  then have "sum_list (map (end_of ?e') (ths[k := y])) =
      sum_list (map (end_of ?e) ths) - end_of ?e (ths ! k) + end_of ?e' y"
    using k by (simp add: sum_list_update_int)
  with dec have "6 * int (length (my_queue g')) + sum_list (map (end_of ?e') (ths[k := y])) <
      6 * int (length (my_queue g)) + sum_list (map (end_of ?e) ths)" by simp
  moreover have "0 \<le> sum_list (map (end_of ?e') (ths[k := y]))"
    by (rule sum_list_nonneg_int) (rule end_of_nonneg)
  ultimately have "nat (6 * int (length (my_queue g')) + sum_list (map (end_of ?e') (ths[k := y]))) <
      nat (6 * int (length (my_queue g)) + sum_list (map (end_of ?e) ths))" by simp
  with ph show ?thesis by (simp add: queue_measure_def)
qed

lemma sint_eq_imp_eq:
  assumes "sint (a :: 32 word) = sint (b :: 32 word)"
  shows "a = b"
proof -
  from assms have "(word_of_int (sint a) :: 32 word) = word_of_int (sint b)" by simp
  then show ?thesis by simp
qed

lemma producing_pc:
  assumes "producer_ok n g (pc l) (sint (loop_i l))"
  shows "prod_rem n (Thread a l) = 0 \<longleftrightarrow> at_barrier (pc l)"
  using assms by (cases "pc l") auto

lemma queue_progress:
  assumes inv: "queue_inv args ths g" and al: "all_launched args ths"
    and nd: "\<not> (\<forall>k<length ths. is_done (queue_task args) (ths ! k))"
    and n0: "0 \<le> sint (total_work args)"
  shows "\<exists>k l l' g'. k < length ths \<and> ths ! k = Thread (word_of_nat k) l \<and>
          \<not> finished (queue_task args) l \<and> act (queue_task args) k l g = Some (l', g') \<and>
          (queue_measure args (ths[k := Thread (word_of_nat k) l']) g', queue_measure args ths g)
            \<in> less_than <*lex*> less_than"
proof -
  note f = queue_inv_facts [OF inv]
  let ?n = "sint (total_work args)"
  have goalI: ?thesis
    if "k < length ths" "ths ! k = Thread (word_of_nat k) l" "pc l \<noteq> W_done"
      "queue_workload args k l g = Some (l', g')"
      "(queue_measure args (ths[k := Thread (word_of_nat k) l']) g', queue_measure args ths g)
        \<in> less_than <*lex*> less_than" for k l l' g'
    using that by (auto simp: queue_task_def)
  have th: "\<exists>l. ths ! u = Thread (word_of_nat u) l" if "u < length ths" for u
    using al that by (simp add: all_launched_def)
  from nd have ne: "0 < length ths" by auto
  from th [OF ne] obtain l0 where l0: "ths ! 0 = Thread 0 l0" by auto
  from f(1) [OF ne] l0 have ok0: "producer_ok ?n g (pc l0) (sint (loop_i l0))" by simp
  note ph = producing_pc [OF ok0, of 0]
  have nonholder: "\<not> holds_qlock (pc l)" if "u < length ths" "qlock g \<noteq> Some u" "ths ! u = Thread a l" for u a l
    using f(1) [OF that(1)] that by simp
  show ?thesis
  proof (cases "qlock g")
    case (Some k)
    with f(2) have k: "k < length ths" by simp
    from th [OF k] obtain l where l: "ths ! k = Thread (word_of_nat k) l" by blast
    from f(1) [OF k] l Some have okk: "thread_ok args g k (Thread (word_of_nat k) l)"
      and h: "holds_qlock (pc l)" by simp_all
    show ?thesis
    proof (cases "k = 0")
      case True
      with okk have p: "producer_ok ?n g (pc l) (sint (loop_i l))" by simp
      from l l0 True have ll: "l = l0" by simp
      from h p consider "pc l = P_push" | "pc l = P_unlock" by (cases "pc l") auto
      then show ?thesis
      proof cases
        case 1
        have a: "queue_workload args k l g = Some (l\<lparr>pc := P_unlock\<rparr>,
            g\<lparr>my_queue := my_queue g @ [loop_i l], pushed := pushed g @ [loop_i l]\<rparr>)"
          using 1 by (simp add: queue_workload_def)
        show ?thesis
        proof (rule goalI [OF k l _ a])
          show "pc l \<noteq> W_done" using 1 by simp
          show "(queue_measure args (ths[k := Thread (word_of_nat k) (l\<lparr>pc := P_unlock\<rparr>)])
              (g\<lparr>my_queue := my_queue g @ [loop_i l], pushed := pushed g @ [loop_i l]\<rparr>),
              queue_measure args ths g) \<in> less_than <*lex*> less_than"
            unfolding True
            by (rule producer_step_decreases [OF ne]) (use 1 p l True in auto)
        qed
      next
        case 2
        have a: "queue_workload args k l g = Some (l\<lparr>pc := P_loop, loop_i := loop_i l + 1\<rparr>,
            g\<lparr>qlock := None\<rparr>)"
          using 2 by (simp add: queue_workload_def)
        from 2 p have "sint (loop_i l) < ?n" by simp
        then have succ: "sint (loop_i l + 1) = sint (loop_i l) + 1" by (rule sint_succ)
        show ?thesis
        proof (rule goalI [OF k l _ a])
          show "pc l \<noteq> W_done" using 2 by simp
          show "(queue_measure args (ths[k := Thread (word_of_nat k) (l\<lparr>pc := P_loop, loop_i := loop_i l + 1\<rparr>)])
              (g\<lparr>qlock := None\<rparr>), queue_measure args ths g) \<in> less_than <*lex*> less_than"
            unfolding True
            by (rule producer_step_decreases [OF ne]) (use 2 p l True succ in auto)
        qed
      qed
    next
      case False
      with okk have c: "consumer_ok g (pc l)" by simp
      have oth: "\<not> holds_qlock (pc l')" if "u < length ths" "u \<noteq> k" "ths ! u = Thread a l'" for u a l'
        using nonholder [OF that(1) _ that(3)] Some that(2) by simp
      have same0: "(ths[k := y]) ! 0 = ths ! 0" for y using False by simp
      have dec: "(queue_measure args (ths[k := Thread (word_of_nat k) l']) g', queue_measure args ths g)
              \<in> less_than <*lex*> less_than"
        if "cs_rank (pc l') < cs_rank (pc l)"
          "prod_rem ?n (ths ! 0) = 0 \<Longrightarrow>
           6 * int (length (my_queue g')) + end_rank (my_queue g' = []) (pc l') <
           6 * int (length (my_queue g)) + end_rank (my_queue g = []) (pc l)" for l' g'
      proof (cases "prod_rem ?n (ths ! 0) = 0")
        case True
        show ?thesis
          by (rule final_step_decreases [OF k True]) (use True same0 oth that(2) l in auto)
      next
        case False
        then show ?thesis
          using k \<open>k \<noteq> 0\<close> that(1) l by (intro critical_step_decreases) auto
      qed
      have dn: "done_flag g" if "prod_rem ?n (ths ! 0) = 0"
        using that ph ok0 l0 by (cases "pc l0") auto
      from h c consider "pc l = Q_empty" | "pc l = Q_done" | "pc l = Q_else" | "pc l = Q_pop"
        | "pc l = Q_unlock" | "pc l = Q_break" by (cases "pc l") auto
      then show ?thesis
      proof cases
        case 1
        have a: "queue_workload args k l g =
            Some (l\<lparr>pc := (if my_queue g = [] then Q_done else Q_else)\<rparr>, g)"
          using 1 by (simp add: queue_workload_def)
        show ?thesis
          by (rule goalI [OF k l _ a]) (use 1 in \<open>auto intro!: dec\<close>)
      next
        case 2
        have a: "queue_workload args k l g =
            Some (l\<lparr>pc := (if done_flag g then Q_break else Q_else)\<rparr>, g)"
          using 2 by (simp add: queue_workload_def)
        show ?thesis
          by (rule goalI [OF k l _ a]) (use 2 dn in \<open>auto intro!: dec\<close>)
      next
        case 3
        have a: "queue_workload args k l g =
            Some (l\<lparr>pc := (if my_queue g \<noteq> [] then Q_pop else Q_unlock)\<rparr>, g)"
          using 3 by (simp add: queue_workload_def)
        show ?thesis
          by (rule goalI [OF k l _ a]) (use 3 in \<open>auto intro!: dec\<close>)
      next
        case 4
        with c obtain x xs where q: "my_queue g = x # xs" by (cases "my_queue g") auto
        have a: "queue_workload args k l g =
            Some (l\<lparr>pc := Q_unlock, my_sum := my_sum l + scast x, my_count := my_count l + 1\<rparr>,
                  g\<lparr>my_queue := xs, popped := popped g @ [(k, x)]\<rparr>)"
          using 4 q by (simp add: queue_workload_def)
        show ?thesis
          by (rule goalI [OF k l _ a]) (use 4 q in \<open>auto intro!: dec\<close>)
      next
        case 5
        have a: "queue_workload args k l g = Some (l\<lparr>pc := Q_lock\<rparr>, g\<lparr>qlock := None\<rparr>)"
          using 5 by (simp add: queue_workload_def)
        show ?thesis
          by (rule goalI [OF k l _ a]) (use 5 in \<open>auto intro!: dec\<close>)
      next
        case 6
        have a: "queue_workload args k l g = Some (l\<lparr>pc := Q_print\<rparr>, g\<lparr>qlock := None\<rparr>)"
          using 6 by (simp add: queue_workload_def)
        show ?thesis
          by (rule goalI [OF k l _ a]) (use 6 in \<open>auto intro!: dec\<close>)
      qed
    qed
  next
    case None
    have free: "\<not> holds_qlock (pc l)" if "u < length ths" "ths ! u = Thread a l" for u a l
      using nonholder [OF that(1) _ that(2)] None by simp
    show ?thesis
    proof (cases "prod_rem ?n (ths ! 0) = 0")
      case False
      with ph l0 have nb: "\<not> at_barrier (pc l0)" by simp
      from free [OF ne l0] have nh: "\<not> holds_qlock (pc l0)" .
      from ok0 nb nh consider "pc l0 = P_loop" | "pc l0 = P_lock" | "pc l0 = P_set_done"
        by (cases "pc l0") auto
      then show ?thesis
      proof cases
        case 1
        have a: "queue_workload args 0 l0 g =
            Some (l0\<lparr>pc := (if loop_i l0 <s total_work args then P_lock else P_set_done)\<rparr>, g)"
          using 1 by (simp add: queue_workload_def)
        show ?thesis
        proof (rule goalI [OF ne _ _ a])
          show "ths ! 0 = Thread (word_of_nat 0) l0" using l0 by simp
          show "pc l0 \<noteq> W_done" using 1 by simp
          show "(queue_measure args (ths[0 := Thread (word_of_nat 0)
              (l0\<lparr>pc := (if loop_i l0 <s total_work args then P_lock else P_set_done)\<rparr>)]) g,
              queue_measure args ths g) \<in> less_than <*lex*> less_than"
            by (rule producer_step_decreases [OF ne]) (use 1 ok0 l0 in \<open>auto simp: word_sless_alt\<close>)
        qed
      next
        case 2
        have a: "queue_workload args 0 l0 g = Some (l0\<lparr>pc := P_push\<rparr>, g\<lparr>qlock := Some 0\<rparr>)"
          using 2 None by (simp add: queue_workload_def)
        show ?thesis
        proof (rule goalI [OF ne _ _ a])
          show "ths ! 0 = Thread (word_of_nat 0) l0" using l0 by simp
          show "pc l0 \<noteq> W_done" using 2 by simp
          show "(queue_measure args (ths[0 := Thread (word_of_nat 0) (l0\<lparr>pc := P_push\<rparr>)])
              (g\<lparr>qlock := Some 0\<rparr>), queue_measure args ths g) \<in> less_than <*lex*> less_than"
            by (rule producer_step_decreases [OF ne]) (use 2 ok0 l0 in auto)
        qed
      next
        case 3
        have a: "queue_workload args 0 l0 g = Some (l0\<lparr>pc := W_barrier\<rparr>, g\<lparr>done_flag := True\<rparr>)"
          using 3 by (simp add: queue_workload_def)
        show ?thesis
        proof (rule goalI [OF ne _ _ a])
          show "ths ! 0 = Thread (word_of_nat 0) l0" using l0 by simp
          show "pc l0 \<noteq> W_done" using 3 by simp
          show "(queue_measure args (ths[0 := Thread (word_of_nat 0) (l0\<lparr>pc := W_barrier\<rparr>)])
              (g\<lparr>done_flag := True\<rparr>), queue_measure args ths g) \<in> less_than <*lex*> less_than"
            by (rule producer_step_decreases [OF ne]) (use 3 ok0 l0 in auto)
        qed
      qed
    next
      case True
      with ph l0 have b0: "at_barrier (pc l0)" by simp
      with ok0 have dn: "done_flag g" and np: "int (length (pushed g)) = ?n"
        using n0 by (cases "pc l0"; simp)+
      have dec: "(queue_measure args (ths[k := Thread (word_of_nat k) l']) g', queue_measure args ths g)
              \<in> less_than <*lex*> less_than"
        if "k < length ths" "ths ! k = Thread (word_of_nat k) l" "at_barrier (pc l') \<or> k \<noteq> 0"
          "my_queue g' = my_queue g" "end_rank (my_queue g = []) (pc l') < end_rank (my_queue g = []) (pc l)"
        for k l l' g'
      proof (rule final_step_decreases [OF that(1) True])
        show "prod_rem ?n (ths[k := Thread (word_of_nat k) l'] ! 0) = 0"
          using that(3) True ne by (cases "k = 0"; cases "pc l'") auto
        show "\<not> holds_qlock (pc l'')" if "u < length ths" "ths ! u = Thread a l''" for u a l''
          using free that by blast
        show "6 * int (length (my_queue g')) + end_of (my_queue g' = []) (Thread (word_of_nat k) l') <
            6 * int (length (my_queue g)) + end_of (my_queue g = []) (ths ! k)"
          using that by simp
      qed
      show ?thesis
      proof (cases "\<exists>u<length ths. \<exists>a l. ths ! u = Thread a l \<and> \<not> at_barrier (pc l)")
        case True
        then obtain k a l' where k: "k < length ths" and "ths ! k = Thread a l'" and nb: "\<not> at_barrier (pc l')"
          by blast
        with th [OF k] have l: "ths ! k = Thread (word_of_nat k) l'" by auto
        have k0: "k \<noteq> 0"
        proof
          assume "k = 0"
          with l l0 have "l' = l0" by simp
          with nb b0 show False by simp
        qed
        with f(1) [OF k] l have c: "consumer_ok g (pc l')" by simp
        from free [OF k l] have nh: "\<not> holds_qlock (pc l')" .
        from c nb nh consider "pc l' = Q_lock" | "pc l' = Q_print" | "pc l' = Q_add_sum" | "pc l' = Q_add_count"
          by (cases "pc l'") auto
        then show ?thesis
        proof cases
          case 1
          have a: "queue_workload args k l' g = Some (l'\<lparr>pc := Q_empty\<rparr>, g\<lparr>qlock := Some k\<rparr>)"
            using 1 None by (simp add: queue_workload_def)
          show ?thesis
            by (rule goalI [OF k l _ a]) (use 1 k l k0 in \<open>auto intro!: dec\<close>)
        next
          case 2
          have a: "queue_workload args k l' g = Some (l'\<lparr>pc := Q_add_sum\<rparr>,
              g\<lparr>stdout := stdout g @ [Thread_count_sum (my_id l') (my_count l') (my_sum l')]\<rparr>)"
            using 2 by (simp add: queue_workload_def)
          show ?thesis
            by (rule goalI [OF k l _ a]) (use 2 k l k0 in \<open>auto intro!: dec\<close>)
        next
          case 3
          have a: "queue_workload args k l' g = Some (l'\<lparr>pc := Q_add_count\<rparr>,
              g\<lparr>sum_acc := sum_acc g + my_sum l'\<rparr>)"
            using 3 by (simp add: queue_workload_def)
          show ?thesis
            by (rule goalI [OF k l _ a]) (use 3 k l k0 in \<open>auto intro!: dec\<close>)
        next
          case 4
          have a: "queue_workload args k l' g = Some (l'\<lparr>pc := W_barrier\<rparr>,
              g\<lparr>count_acc := count_acc g + my_count l'\<rparr>)"
            using 4 by (simp add: queue_workload_def)
          show ?thesis
            by (rule goalI [OF k l _ a]) (use 4 k l k0 in \<open>auto intro!: dec\<close>)
        qed
      next
        case False
        then have allb: "at_barrier (pc l)" if "u < length ths" "ths ! u = Thread a l" for u a l
          using that by blast
        from nd obtain k where k: "k < length ths" and ndk: "\<not> is_done (queue_task args) (ths ! k)"
          by blast
        from th [OF k] obtain l where l: "ths ! k = Thread (word_of_nat k) l" by blast
        with ndk have nd': "pc l \<noteq> W_done" by (simp add: is_done_def queue_task_def)
        have "0 \<le> sint (num_threads args)" "int (length ths) = sint (num_threads args)"
          using al by (simp_all add: all_launched_def)
        then have k31: "int k < 2 ^ 31" using k sint_lt [of "num_threads args"] by simp
        from f(1) [OF k] l have idk: "my_id l = word_of_nat k" by simp
        have idz: "my_id l = 0 \<longleftrightarrow> k = 0" unfolding idk using k31 by (rule word_of_nat_zero)
        have "sum_list (map added_count_of ths) = sum_list (map count_of ths)"
        proof (rule sum_list_map_cong_nth)
          fix u assume u: "u < length ths"
          from th [OF u] obtain lu where "ths ! u = Thread (word_of_nat u) lu" by blast
          with allb [OF u] show "added_count_of (ths ! u) = count_of (ths ! u)" by simp
        qed
        with f(7,9) have cq: "sint (count_acc g) = int (length (popped g))" by simp
        have qn: "int (length (popped g)) = ?n"
        proof (cases "length ths = 1")
          case True
          have "popped g = []"
          proof (cases "popped g")
            case (Cons p ps)
            with f(6) True show ?thesis by auto
          qed simp
          moreover have "sint (num_threads args) = 1"
            using True \<open>int (length ths) = sint (num_threads args)\<close> by simp
          then have "num_threads args = 1"
            by (intro sint_eq_imp_eq) simp
          ultimately show ?thesis by (simp add: total_work_def)
        next
          case False
          with ne have u: "1 < length ths" by (cases ths) auto
          from th [OF u] obtain l1 where l1: "ths ! 1 = Thread (word_of_nat 1) l1" by blast
          from f(1) [OF u] l1 have "consumer_ok g (pc l1)" by simp
          with allb [OF u l1] have "my_queue g = []" by (cases "pc l1") auto
          with f(4) have "length (popped g) = length (pushed g)" by (metis append_Nil2 length_map)
          with np show ?thesis by simp
        qed
        from cq qn have "sint (count_acc g) = sint (total_work args)" by simp
        then have ce: "count_acc g = total_work args" by (rule sint_eq_imp_eq)
        from allb [OF k l] nd' consider "pc l = W_barrier" | "pc l = W_print"
          by (cases "pc l") auto
        then show ?thesis
        proof cases
          case 1
          have a: "queue_workload args k l g =
              Some (l\<lparr>pc := (if my_id l = 0 then W_print else W_done)\<rparr>, g)"
            using 1 ce by (simp add: queue_workload_def)
          show ?thesis
          proof (rule goalI [OF k l _ a])
            show "pc l \<noteq> W_done" by (rule nd')
            show "(queue_measure args (ths[k := Thread (word_of_nat k)
                (l\<lparr>pc := (if my_id l = 0 then W_print else W_done)\<rparr>)]) g, queue_measure args ths g)
                \<in> less_than <*lex*> less_than"
              by (rule dec [OF k l]) (use 1 in auto)
          qed
        next
          case 2
          have a: "queue_workload args k l g =
              Some (l\<lparr>pc := W_done\<rparr>, g\<lparr>stdout := stdout g @ [Total_sum (sum_acc g)]\<rparr>)"
            using 2 by (simp add: queue_workload_def)
          show ?thesis
          proof (rule goalI [OF k l _ a])
            show "pc l \<noteq> W_done" by (rule nd')
            show "(queue_measure args (ths[k := Thread (word_of_nat k) (l\<lparr>pc := W_done\<rparr>)])
                (g\<lparr>stdout := stdout g @ [Total_sum (sum_acc g)]\<rparr>), queue_measure args ths g)
                \<in> less_than <*lex*> less_than"
              by (rule dec [OF k l]) (use 2 in auto)
          qed
        qed
      qed
    qed
  qed
qed

lemma queue_can_return:
  assumes "run_queue_test args s" and "0 \<le> sint (num_threads args)"
    and n0: "0 \<le> sint (total_work args)"
  shows "can_return args (queue_task args) s"
proof (rule can_return_wf [where P = "queue_inv args" and m = "queue_measure args"
      and r = "less_than <*lex*> less_than" and ?g0.0 = queue_init])
  show "queue_inv args (threads s) (shared s)" if "reach args (queue_task args) queue_init s" for s
    using that by (simp add: reach_queue_inv run_queue_test_def)
  show "wf (less_than <*lex*> less_than)" by (intro wf_lex_prod wf_less_than)
  show "reach args (queue_task args) queue_init s" using assms(1) by (simp add: run_queue_test_def)
  show "0 \<le> sint (num_threads args)" by fact
qed (rule queue_progress [OF _ _ _ n0])

text \<open>When the product wraps around to a negative \<open>int\<close>, no thread passes the barrier.\<close>

lemma queue_never_returns:
  assumes "1 \<le> sint (num_threads args)" and "sint (total_work args) < 0"
  shows "\<not> (\<exists>s. run_queue_test args s \<and> returned s)"
proof
  assume "\<exists>s. run_queue_test args s \<and> returned s"
  then obtain s where "run_queue_test args s" "returned s" by blast
  from queue_final(1) [OF this assms(1)] assms(2) show False by simp
qed

lemma sint_mult_32: "sint ((x :: 32 word) * y) = signed_take_bit 31 (sint x * sint y)"
  by (simp add: sint_word_ariths)

lemma total_work_exact:
  assumes "1 \<le> sint (num_threads args)" and "0 \<le> sint (num_ints args)"
    and "(sint (num_threads args) - 1) * sint (num_ints args) < 2 ^ 31"
  shows "sint (total_work args) = (sint (num_threads args) - 1) * sint (num_ints args)"
proof -
  have a: "sint (num_threads args - 1) = sint (num_threads args) - 1"
    using assms(1) sint_lt [of "num_threads args"]
    by (simp add: sint_word_ariths signed_take_bit_int_eq_self)
  have "0 \<le> (sint (num_threads args) - 1) * sint (num_ints args)"
    using assms(1,2) by simp
  then have "signed_take_bit 31 ((sint (num_threads args) - 1) * sint (num_ints args)) =
      (sint (num_threads args) - 1) * sint (num_ints args)"
    using assms(3) by (intro signed_take_bit_int_eq_self) simp_all
  moreover have "sint ((num_threads args - 1) * num_ints args) =
      signed_take_bit 31 (sint (num_threads args - 1) * sint (num_ints args))"
    by (rule sint_mult_32)
  ultimately show ?thesis by (simp only: total_work_def a)
qed

lemma triangle_sum: "triangle q = (\<Sum>i = 0..<q. int i)"
  by (induction q) auto

lemma triangle_div: "triangle q = int q * (int q - 1) div 2"
proof -
  have "int q * (int q - 1) div 2 = (2 * triangle q) div 2" by (simp only: triangle_closed)
  also have "\<dots> = triangle q" by (rule nonzero_mult_div_cancel_left) simp
  finally show ?thesis by (rule sym)
qed


lemma sint64_eq_imp_eq:
  assumes "sint (a :: 64 word) = sint (b :: 64 word)"
  shows "a = b"
proof -
  from assms have "(word_of_int (sint a) :: 64 word) = word_of_int (sint b)" by simp
  then show ?thesis by simp
qed

lemma uint64_eq_imp_eq:
  assumes "uint (a :: 64 word) = uint (b :: 64 word)"
  shows "a = b"
  using assms by (rule word_uint_eqI)

section \<open>The queue test with one thread\<close>

text \<open>The steps the launching thread and the only worker have left.\<close>

fun main_left :: "main_pc \<Rightarrow> nat" where
  "main_left M_start = 6"
| "main_left (M_launch i) = (if i = 0 then 5 else 4)"
| "main_left (M_join j) = 3 - j"
| "main_left M_stop = 1"
| "main_left M_returned = 0"
| "main_left M_undefined = 0"

fun producer_left :: "queue_local thread list \<Rightarrow> nat" where
  "producer_left (Thread a l # ths) =
     (case pc l of P_loop \<Rightarrow> 4 | P_set_done \<Rightarrow> 3 | W_barrier \<Rightarrow> 2 | W_print \<Rightarrow> 1 | _ \<Rightarrow> 0)"
| "producer_left _ = 4"

definition steps_left :: "(queue_local, queue_shared) sys \<Rightarrow> nat" where
  "steps_left s = main_left (pc_main s) + producer_left (threads s)"

lemma single_thread_step:
  assumes nt: "num_threads args = 1" and r: "run_queue_test args s"
    and st: "step args (queue_task args) e s = Some s'"
  shows "steps_left s' + thread_steps [e] = steps_left s"
proof -
  have tw: "total_work args = 0" using nt by (simp add: total_work_def)
  from r have mi: "main_inv args (queue_task args) s"
    by (simp add: run_queue_test_def reach_main_inv)
  note inv = reach_queue_inv [OF r]
  note f = queue_inv_facts [OF inv]
  show ?thesis
  proof (cases e)
    case (Tick d)
    with st show ?thesis by (auto simp: steps_left_def split: if_splits)
  next
    case Main
    with st have m: "run_timed_test args (queue_task args) s = Some s'" by simp
    show ?thesis
    proof (cases "pc_main s")
      case M_start
      with m nt mi show ?thesis
        by (auto simp: run_timed_test_def steps_left_def main_inv_def Main)
    next
      case (M_launch i)
      with mi nt have i: "0 \<le> sint i" "sint i \<le> 1" "length (threads s) = 1"
        and nat: "if 0 < sint i then (\<exists>l. threads s ! 0 = Thread 0 l)
             else threads s ! 0 = Not_a_thread"
        by (auto simp: main_inv_def dest!: spec [of _ 0])
      from i(3) obtain t where t: "threads s = [t]" by (cases "threads s") auto
      show ?thesis
      proof (cases "i = 0")
        case True
        with nat t have "t = Not_a_thread" by simp
        with m M_launch True nt t show ?thesis
          by (auto simp: run_timed_test_def steps_left_def Main word_sless_alt queue_task_def
              queue_start_def)
      next
        case False
        with i have "sint i = 1" by (metis sint_0 order_antisym_conv linorder_not_less not_less_iff_gr_or_eq
              signed_eq_0_iff zle_add1_eq_le zero_less_one_class.zero_le_one add_0)
        with m M_launch False nt show ?thesis
          by (auto simp: run_timed_test_def steps_left_def Main word_sless_alt)
      qed
    next
      case (M_join j)
      with mi nt have len: "length (threads s) = 1" and j: "j \<le> 1"
        and al: "\<forall>k<length (threads s). \<exists>l. threads s ! k = Thread (word_of_nat k) l"
        by (auto simp: main_inv_def all_launched_def)
      from al len have "\<exists>l. threads s ! 0 = Thread (word_of_nat 0) l"
        by (metis zero_less_one)
      with len obtain l where "threads s = [Thread 0 l]"
        by (cases "threads s") auto
      with m M_join j show ?thesis
        by (auto simp: run_timed_test_def steps_left_def Main split: if_splits)
    next
      case M_stop
      with m show ?thesis by (auto simp: run_timed_test_def steps_left_def Main)
    next
      case M_returned
      with m show ?thesis by (simp add: run_timed_test_def)
    next
      case M_undefined
      with m show ?thesis by (simp add: run_timed_test_def)
    qed
  next
    case (Worker k)
    with st have "worker_step (queue_task args) k s = Some s'" by simp
    then obtain a l l' g' where k: "k < length (threads s)" "threads s ! k = Thread a l"
      "queue_workload args k l (shared s) = Some (l', g')"
      and s': "s' = s\<lparr>threads := (threads s)[k := Thread a l'], shared := g'\<rparr>"
      by (auto simp: worker_step_def queue_task_def split: if_splits thread.splits option.splits)
    have len: "length (threads s) = 1"
      using mi k(1) nt by (cases "pc_main s") (auto simp: main_inv_def all_launched_def)
    with k have k0: "k = 0" and t: "threads s = [Thread a l]"
      by (cases "threads s"; simp)+
    from f(1) [OF k(1)] k(2) k0 tw
    have p: "producer_ok 0 (shared s) (pc l) (sint (loop_i l))" and z: "my_count l = 0"
      and me: "my_id l = 0" by simp_all
    have ca: "count_acc (shared s) = 0"
    proof -
      from f(9) t p z have "sint (count_acc (shared s)) = 0" by (cases "pc l") auto
      then show ?thesis by (simp add: signed_eq_0_iff)
    qed
    from p k(3) ca tw me show ?thesis
      unfolding s' steps_left_def Worker t k0
      by (cases "pc l") (auto simp: queue_workload_def word_sless_alt)
  qed
qed

lemma single_thread_exec:
  assumes nt: "num_threads args = 1"
  shows "run_queue_test args s \<Longrightarrow> exec args (queue_task args) es s = Some s' \<Longrightarrow>
    steps_left s' + thread_steps es = steps_left s"
proof (induction es arbitrary: s)
  case Nil
  then show ?case by simp
next
  case (Cons e es)
  from Cons.prems(2) obtain s1 where st: "step args (queue_task args) e s = Some s1"
    and ex: "exec args (queue_task args) es s1 = Some s'"
    by (auto split: option.splits)
  have r1: "run_queue_test args s1"
    using Cons.prems(1) st unfolding run_queue_test_def by (rule reach_step)
  from single_thread_step [OF nt Cons.prems(1) st] Cons.IH [OF r1 ex]
  show ?case by (cases e) auto
qed

lemma single_thread_bound:
  assumes nt: "num_threads args = 1"
    and ex: "exec args (queue_task args) es (init_sys queue_init) = Some s"
  shows "thread_steps es \<le> 10"
proof -
  have "run_queue_test args (init_sys queue_init)"
    unfolding run_queue_test_def by (rule reach_init)
  from single_thread_exec [OF nt this ex] show ?thesis
    by (simp add: steps_left_def init_sys_def)
qed

lemma single_thread_no_deadlock:
  assumes nt: "num_threads args = 1" and r: "run_queue_test args s" and nr: "\<not> returned s"
  shows "step args (queue_task args) Main s \<noteq> None \<or> step args (queue_task args) (Worker 0) s \<noteq> None"
proof -
  have tw: "total_work args = 0" using nt by (simp add: total_work_def)
  from r have mi: "main_inv args (queue_task args) s"
    by (simp add: run_queue_test_def reach_main_inv)
  note f = queue_inv_facts [OF reach_queue_inv [OF r]]
  show ?thesis
  proof (cases "pc_main s")
    case (M_join j)
    with mi nt have len: "length (threads s) = 1"
      and al: "\<forall>k<length (threads s). \<exists>l. threads s ! k = Thread (word_of_nat k) l"
      by (auto simp: main_inv_def all_launched_def)
    from al len have "\<exists>l. threads s ! 0 = Thread (word_of_nat 0) l"
      by (metis zero_less_one)
    then have "\<exists>l. threads s ! 0 = Thread 0 l" by simp
    with len obtain l where t: "threads s = [Thread 0 l]"
      by (cases "threads s") auto
    show ?thesis
    proof (cases "pc l = W_done")
      case True
      with M_join t show ?thesis
        by (auto simp: run_timed_test_def queue_task_def split: if_splits)
    next
      case False
      from f(1) [of 0] t tw have "producer_ok 0 (shared s) (pc l) (sint (loop_i l))" by simp
      with False t show ?thesis
        by (cases "pc l") (auto simp: worker_step_def queue_task_def queue_workload_def)
    qed
  next
    case M_undefined
    with mi nt show ?thesis by (simp add: main_inv_def)
  next
    case M_returned
    with nr show ?thesis by (simp add: returned_def)
  qed (auto simp: run_timed_test_def)
qed

section \<open>The queue test: results\<close>

lemmas queue_eval =
  queue_task_def queue_init_def queue_start_def queue_workload_def total_work_def
  init_sys_def run_timed_test_def worker_step_def returned_def word_sless_alt eval_nat_numeral

text \<open>
  C1, as the code has it. For \<open>num_threads \<ge> 2\<close> and \<open>num_ints \<ge> 0\<close> whose product
  \<open>(num_threads - 1) * num_ints\<close> fits an \<open>int\<close>: from every state the queue test reaches
  it can run on until \<open>run_timed_test\<close> returns, and whenever it has returned \<open>count\<close>
  is exactly \<open>(num_threads - 1) * num_ints\<close> and \<open>sum\<close> is exactly the sum of the
  integers below that number, \<open>n (n - 1) / 2\<close>.
\<close>

theorem queue_test_exact:
  assumes "2 \<le> sint (num_threads args)" and "0 \<le> sint (num_ints args)"
    and "(sint (num_threads args) - 1) * sint (num_ints args) < 2 ^ 31"
  shows "(\<forall>s. run_queue_test args s \<longrightarrow> can_return args (queue_task args) s) \<and>
    (\<forall>s. run_queue_test args s \<and> returned s \<longrightarrow>
       sint (count_acc (shared s)) = (sint (num_threads args) - 1) * sint (num_ints args) \<and>
       sint (sum_acc (shared s)) =
         (\<Sum>i = 0..<nat ((sint (num_threads args) - 1) * sint (num_ints args)). int i) \<and>
       sint (sum_acc (shared s)) =
         (sint (num_threads args) - 1) * sint (num_ints args) *
         ((sint (num_threads args) - 1) * sint (num_ints args) - 1) div 2)"
proof -
  let ?n = "(sint (num_threads args) - 1) * sint (num_ints args)"
  from assms have nt: "1 \<le> sint (num_threads args)" by simp
  have tw: "sint (total_work args) = ?n" using nt assms(2,3) by (rule total_work_exact)
  have n0: "0 \<le> ?n" using nt assms(2) by simp
  have "can_return args (queue_task args) s" if "run_queue_test args s" for s
    using that by (rule queue_can_return) (use nt n0 tw in simp_all)
  moreover have "sint (count_acc (shared s)) = ?n \<and>
       sint (sum_acc (shared s)) = (\<Sum>i = 0..<nat ?n. int i) \<and>
       sint (sum_acc (shared s)) = ?n * (?n - 1) div 2"
    if "run_queue_test args s \<and> returned s" for s
  proof -
    from that have r: "run_queue_test args s" and ret: "returned s" by simp_all
    note q = queue_final [OF r ret nt]
    from q(2) tw have "sint (count_acc (shared s)) = ?n" by simp
    moreover from q(3) tw have "sint (sum_acc (shared s)) = triangle (nat ?n)" by simp
    moreover have "int (nat ?n) = ?n" using n0 by simp
    ultimately show ?thesis
      using triangle_sum [of "nat ?n"] triangle_div [of "nat ?n"] by simp
  qed
  ultimately show ?thesis by blast
qed

theorem queue_test_exact_witness:
  "\<exists>s. run_queue_test \<lparr>num_ints = 1, num_threads = 3, behavior = ''queue'', usage = False\<rparr> s \<and>
     returned s \<and> sint (count_acc (shared s)) = 2 \<and> sint (sum_acc (shared s)) = 1"
proof -
  let ?A = "\<lparr>num_ints = 1, num_threads = 3, behavior = ''queue'', usage = False\<rparr>"
  have "\<exists>s. exec ?A (queue_task ?A)
     [Main, Main, Worker 0, Worker 0, Main, Main, Worker 0, Worker 0, Worker 0, Worker 0, Worker 0,
      Worker 0, Worker 2, Worker 2, Main, Worker 0, Worker 0, Worker 2, Worker 2, Worker 2, Worker 1,
      Worker 1, Worker 1, Worker 1, Worker 1, Worker 2, Worker 2, Worker 2, Worker 2, Worker 2,
      Worker 1, Worker 2, Worker 1, Worker 1, Worker 1, Worker 2, Worker 1, Worker 1, Worker 1,
      Worker 2, Worker 1, Worker 0, Worker 0, Main, Main, Main, Main, Main]
     (init_sys queue_init) = Some s \<and> returned s"
    by (simp add: queue_eval)
  then obtain s where e: "exec ?A (queue_task ?A)
     [Main, Main, Worker 0, Worker 0, Main, Main, Worker 0, Worker 0, Worker 0, Worker 0, Worker 0,
      Worker 0, Worker 2, Worker 2, Main, Worker 0, Worker 0, Worker 2, Worker 2, Worker 2, Worker 1,
      Worker 1, Worker 1, Worker 1, Worker 1, Worker 2, Worker 2, Worker 2, Worker 2, Worker 2,
      Worker 1, Worker 2, Worker 1, Worker 1, Worker 1, Worker 2, Worker 1, Worker 1, Worker 1,
      Worker 2, Worker 1, Worker 0, Worker 0, Main, Main, Main, Main, Main]
     (init_sys queue_init) = Some s" and ret: "returned s" by blast
  from reach_exec [OF reach_init e] have r: "run_queue_test ?A s"
    by (simp add: run_queue_test_def)
  have "sint (count_acc (shared s)) = (sint (num_threads ?A) - 1) * sint (num_ints ?A) \<and>
      sint (sum_acc (shared s)) = (sint (num_threads ?A) - 1) * sint (num_ints ?A) *
         ((sint (num_threads ?A) - 1) * sint (num_ints ?A) - 1) div 2"
    using queue_test_exact [of ?A] r ret by auto
  then have "sint (count_acc (shared s)) = 2 \<and> sint (sum_acc (shared s)) = 1" by simp
  with r ret show ?thesis by blast
qed

text \<open>
  C1 as stated fails where the product does not fit an \<open>int\<close>: with \<open>num_threads = 3\<close>
  and \<open>num_ints = 2^30\<close> the product wraps around to \<open>-2^31\<close>, nothing is pushed,
  \<open>count\<close> stays 0 and the barrier never opens, so the test never returns.
\<close>

theorem queue_test_overflow:
  "2 \<le> sint (num_threads \<lparr>num_ints = 1073741824, num_threads = 3, behavior = ''queue'', usage = False\<rparr>) \<and>
   0 \<le> sint (num_ints \<lparr>num_ints = 1073741824, num_threads = 3, behavior = ''queue'', usage = False\<rparr>) \<and>
   run_queue_test \<lparr>num_ints = 1073741824, num_threads = 3, behavior = ''queue'', usage = False\<rparr>
     (init_sys queue_init) \<and>
   \<not> can_return \<lparr>num_ints = 1073741824, num_threads = 3, behavior = ''queue'', usage = False\<rparr>
     (queue_task \<lparr>num_ints = 1073741824, num_threads = 3, behavior = ''queue'', usage = False\<rparr>)
     (init_sys queue_init)"
proof -
  let ?A = "\<lparr>num_ints = 1073741824, num_threads = 3, behavior = ''queue'', usage = False\<rparr>"
  have r0: "run_queue_test ?A (init_sys queue_init)"
    unfolding run_queue_test_def by (rule reach_init)
  have neg: "sint (total_work ?A) < 0" by (simp add: total_work_def)
  have "\<not> can_return ?A (queue_task ?A) (init_sys queue_init)"
  proof
    assume "can_return ?A (queue_task ?A) (init_sys queue_init)"
    then obtain es s where e: "exec ?A (queue_task ?A) es (init_sys queue_init) = Some s"
      and ret: "returned s" unfolding can_return_def by blast
    from reach_exec [OF reach_init e] have "run_queue_test ?A s" by (simp add: run_queue_test_def)
    with ret queue_never_returns [of ?A] neg show False by auto
  qed
  with r0 show ?thesis by simp
qed





text \<open>
  C5. With \<open>num_threads = 1\<close>, whatever \<open>num_ints\<close> is: the number of work items is 0;
  no schedule lets the two threads take more than 10 steps together; as long as
  \<open>run_timed_test\<close> has not returned, the launching thread or thread 0 can take a step (no
  deadlock), so that from every state the queue test reaches it runs on until
  \<open>run_timed_test\<close> returns; and whenever it has returned there is the one thread, nothing
  was pushed, the completion flag is set, and \<open>count\<close> and \<open>sum\<close> are 0.
\<close>

theorem queue_single_thread:
  assumes "num_threads args = 1"
  shows "total_work args = 0 \<and>
    (\<forall>es s. exec args (queue_task args) es (init_sys queue_init) = Some s \<longrightarrow>
       thread_steps es \<le> 10) \<and>
    (\<forall>s. run_queue_test args s \<and> \<not> returned s \<longrightarrow>
       step args (queue_task args) Main s \<noteq> None \<or>
       step args (queue_task args) (Worker 0) s \<noteq> None) \<and>
    (\<forall>s. run_queue_test args s \<longrightarrow> can_return args (queue_task args) s) \<and>
    (\<forall>s. run_queue_test args s \<and> returned s \<longrightarrow>
       length (threads s) = 1 \<and> pushed (shared s) = [] \<and> done_flag (shared s) \<and>
       count_acc (shared s) = 0 \<and> sum_acc (shared s) = 0)"
proof (intro conjI allI impI)
  show tw: "total_work args = 0" using assms by (simp add: total_work_def)
  have nt: "sint (num_threads args) = 1" using assms by simp
  {
    fix es s
    assume "exec args (queue_task args) es (init_sys queue_init) = Some s"
    with assms show "thread_steps es \<le> 10" by (rule single_thread_bound)
  }
  fix s
  {
    assume "run_queue_test args s \<and> \<not> returned s"
    then have "run_queue_test args s" and "\<not> returned s" by simp_all
    with assms show "step args (queue_task args) Main s \<noteq> None \<or>
       step args (queue_task args) (Worker 0) s \<noteq> None"
      by (rule single_thread_no_deadlock)
  }
  {
    assume "run_queue_test args s"
    then show "can_return args (queue_task args) s"
      by (rule queue_can_return) (use nt tw in simp_all)
  }
  assume a: "run_queue_test args s \<and> returned s"
  then have r: "run_queue_test args s" and ret: "returned s" by simp_all
  from nt have nt1: "1 \<le> sint (num_threads args)" by simp
  note q = queue_final [OF r ret nt1]
  from queue_returned(1) [OF r ret] nt show "length (threads s) = 1"
    by (simp add: all_launched_def)
  from q(6) tw show "pushed (shared s) = []" by (simp add: items_def)
  from q(7) show "done_flag (shared s)" .
  from q(2) tw show "count_acc (shared s) = 0" by simp
  from q(3) tw have "sint (sum_acc (shared s)) = sint (0 :: 64 word)" by simp
  then show "sum_acc (shared s) = 0" by (rule sint64_eq_imp_eq)
qed

theorem queue_single_thread_witness:
  "\<exists>s. run_queue_test \<lparr>num_ints = 5, num_threads = 1, behavior = ''queue'', usage = False\<rparr> s \<and>
     returned s \<and> count_acc (shared s) = 0 \<and> sum_acc (shared s) = 0 \<and>
     stdout (shared s) = [Total_sum 0]"
proof -
  let ?A = "\<lparr>num_ints = 5, num_threads = 1, behavior = ''queue'', usage = False\<rparr>"
  have "\<exists>s. exec ?A (queue_task ?A)
     [Main, Main, Worker 0, Main, Worker 0, Worker 0, Worker 0, Main, Main, Main]
     (init_sys queue_init) = Some s \<and> returned s \<and> stdout (shared s) = [Total_sum 0]"
    by (simp add: queue_eval)
  then obtain s where e: "exec ?A (queue_task ?A)
     [Main, Main, Worker 0, Main, Worker 0, Worker 0, Worker 0, Main, Main, Main]
     (init_sys queue_init) = Some s" and ret: "returned s"
    and o: "stdout (shared s) = [Total_sum 0]" by blast
  from reach_exec [OF reach_init e] have r: "run_queue_test ?A s"
    by (simp add: run_queue_test_def)
  have "count_acc (shared s) = 0 \<and> sum_acc (shared s) = 0"
    using queue_single_thread [of ?A] r ret by auto
  with r ret o show ?thesis by blast
qed

section \<open>run_timed_test: the clock\<close>












section \<open>run_timed_test: results\<close>



section \<open>main: results\<close>

text \<open>
  C6. The statement of \<open>main\<close> that selects the workload runs the counter test exactly
  when the behavior string is "counter", the counters test exactly when it is "counters",
  the queue test exactly when it is "queue", and prints "invalid behavior parameter" with
  the string, running nothing, exactly when it is none of the three; \<open>main\<close> reaches that
  statement unless help was requested, and its exit status is 0 in every case.
\<close>

theorem main_selects_workload:
  "(run_appropriate_workload args = Run_counter_test \<longleftrightarrow> behavior args = ''counter'') \<and>
   (run_appropriate_workload args = Run_counters_test \<longleftrightarrow> behavior args = ''counters'') \<and>
   (run_appropriate_workload args = Run_queue_test \<longleftrightarrow> behavior args = ''queue'') \<and>
   (run_appropriate_workload args = Print_invalid_behavior (behavior args) \<longleftrightarrow>
      behavior args \<notin> {''counter'', ''counters'', ''queue''}) \<and>
   run_appropriate_workload args \<noteq> Print_usage \<and>
   main args = (if usage args then (Print_usage, 0) else (run_appropriate_workload args, 0)) \<and>
   snd (main args) = 0"
  by (simp add: run_appropriate_workload_def main_def)

lemma main_bogus:
  "main \<lparr>num_ints = 64, num_threads = 1, behavior = ''bogus'', usage = False\<rparr> =
     (Print_invalid_behavior ''bogus'', 0)"
  by (simp add: run_appropriate_workload_def main_def)

section \<open>Two runs with the same arguments\<close>

text \<open>
  C8. Two runs of the same test with the same arguments (and the same \<open>rand_r\<close>), under
  any two schedules, that have both returned end with the same counter (counter test),
  the same sum of slots (counters test), and the same \<open>sum\<close> and \<open>count\<close> (queue test).
\<close>

theorem same_arguments_same_results:
  "(\<forall>s s'. run_counter_test args s \<and> returned s \<and> run_counter_test args s' \<and> returned s' \<longrightarrow>
       counter (shared s) = counter (shared s')) \<and>
   (\<forall>s s'. run_counters_test rand_r args s \<and> returned s \<and>
       run_counters_test rand_r args s' \<and> returned s' \<longrightarrow>
       sum_list (map uint (counters (shared s))) = sum_list (map uint (counters (shared s')))) \<and>
   (\<forall>s s'. run_queue_test args s \<and> returned s \<and> run_queue_test args s' \<and> returned s' \<longrightarrow>
       sum_acc (shared s) = sum_acc (shared s') \<and> count_acc (shared s) = count_acc (shared s'))"
proof (intro conjI allI impI)
  fix s s'
  assume "run_counter_test args s \<and> returned s \<and> run_counter_test args s' \<and> returned s'"
  then have "uint (counter (shared s)) = sint (num_threads args) * max 0 (sint (num_ints args))"
    and "uint (counter (shared s')) = sint (num_threads args) * max 0 (sint (num_ints args))"
    by (simp_all add: counter_final)
  then have "uint (counter (shared s)) = uint (counter (shared s'))" by simp
  then show "counter (shared s) = counter (shared s')" by (rule uint64_eq_imp_eq)
next
  fix s s'
  assume "run_counters_test rand_r args s \<and> returned s \<and>
       run_counters_test rand_r args s' \<and> returned s'"
  then have r: "run_counters_test rand_r args s" "returned s"
    and r': "run_counters_test rand_r args s'" "returned s'" by simp_all
  have "sum_list (map uint (counters (shared s))) =
      sint (num_threads args) * max 0 (sint (num_ints args))"
    and "sum_list (map uint (counters (shared s'))) =
      sint (num_threads args) * max 0 (sint (num_ints args))"
    by (rule counters_final_any(1) [OF r] counters_final_any(1) [OF r'])+
  then show "sum_list (map uint (counters (shared s))) = sum_list (map uint (counters (shared s')))"
    by simp
next
  fix s s'
  assume a: "run_queue_test args s \<and> returned s \<and> run_queue_test args s' \<and> returned s'"
  have "sum_acc (shared s) = sum_acc (shared s') \<and> count_acc (shared s) = count_acc (shared s')"
  proof (cases "1 \<le> sint (num_threads args)")
    case True
    from a have r: "run_queue_test args s" "returned s"
      and r': "run_queue_test args s'" "returned s'" by simp_all
    note q = queue_final(2,3) [OF r True] and q' = queue_final(2,3) [OF r' True]
    from q(2) q'(2) have "sint (sum_acc (shared s)) = sint (sum_acc (shared s'))" by simp
    then have "sum_acc (shared s) = sum_acc (shared s')" by (rule sint64_eq_imp_eq)
    with q(1) q'(1) show ?thesis by simp
  next
    case False
    then have nt: "sint (num_threads args) \<le> 0" by simp
    from a have r: "run_queue_test args s" and r': "run_queue_test args s'" by simp_all
    have "shared s = queue_init" "shared s' = queue_init"
      by (rule queue_final_no_threads [OF r nt] queue_final_no_threads [OF r' nt])+
    then show ?thesis by simp
  qed
  then show "sum_acc (shared s) = sum_acc (shared s')"
    and "count_acc (shared s) = count_acc (shared s')" by simp_all
qed

theorem same_arguments_same_results_witness:
  "\<exists>s s'. run_queue_test \<lparr>num_ints = 1, num_threads = 3, behavior = ''queue'', usage = False\<rparr> s \<and>
     returned s \<and>
     run_queue_test \<lparr>num_ints = 1, num_threads = 3, behavior = ''queue'', usage = False\<rparr> s' \<and>
     returned s' \<and> popped (shared s) \<noteq> popped (shared s') \<and> time_span s \<noteq> time_span s' \<and>
     sum_acc (shared s) = sum_acc (shared s') \<and> count_acc (shared s) = count_acc (shared s')"
proof -
  let ?A = "\<lparr>num_ints = 1, num_threads = 3, behavior = ''queue'', usage = False\<rparr>"
  have "\<exists>s. exec ?A (queue_task ?A)
     [Main, Main, Worker 0, Worker 0, Main, Main, Worker 0, Worker 0, Worker 0, Worker 0, Worker 0,
      Worker 0, Worker 2, Worker 2, Main, Worker 0, Worker 0, Worker 2, Worker 2, Worker 2, Worker 1,
      Worker 1, Worker 1, Worker 1, Worker 1, Worker 2, Worker 2, Worker 2, Worker 2, Worker 2,
      Worker 1, Worker 2, Worker 1, Worker 1, Worker 1, Worker 2, Worker 1, Worker 1, Worker 1,
      Worker 2, Worker 1, Worker 0, Worker 0, Main, Main, Main, Tick 2, Main, Main]
     (init_sys queue_init) = Some s \<and> returned s \<and> popped (shared s) = [(2, 0), (1, 1)] \<and>
     time_span s = Some 2"
    by (simp add: queue_eval)
  then obtain s where e: "exec ?A (queue_task ?A)
     [Main, Main, Worker 0, Worker 0, Main, Main, Worker 0, Worker 0, Worker 0, Worker 0, Worker 0,
      Worker 0, Worker 2, Worker 2, Main, Worker 0, Worker 0, Worker 2, Worker 2, Worker 2, Worker 1,
      Worker 1, Worker 1, Worker 1, Worker 1, Worker 2, Worker 2, Worker 2, Worker 2, Worker 2,
      Worker 1, Worker 2, Worker 1, Worker 1, Worker 1, Worker 2, Worker 1, Worker 1, Worker 1,
      Worker 2, Worker 1, Worker 0, Worker 0, Main, Main, Main, Tick 2, Main, Main]
     (init_sys queue_init) = Some s" and ret: "returned s"
    and p: "popped (shared s) = [(2, 0), (1, 1)]" and t: "time_span s = Some 2" by blast
  have "\<exists>s. exec ?A (queue_task ?A) 
     [Main, Main, Main, Worker 0, Main, Worker 1, Worker 1, Main, Worker 1, Worker 1, Worker 1,
      Worker 2, Tick 7, Worker 2, Worker 2, Worker 2, Worker 2, Worker 0, Worker 0, Worker 0,
      Worker 1, Worker 1, Worker 1, Worker 1, Worker 0, Worker 1, Worker 0, Worker 0, Worker 0,
      Worker 0, Worker 1, Worker 0, Worker 1, Worker 1, Worker 1, Worker 1, Worker 2, Worker 2,
      Worker 2, Worker 2, Worker 2, Worker 1, Worker 2, Worker 2, Worker 1, Worker 1, Worker 1,
      Worker 1, Worker 1, Worker 1, Worker 1, Worker 2, Worker 0, Worker 0, Main, Main, Main,
      Main, Main]
    
     (init_sys queue_init) = Some s \<and> returned s \<and> popped (shared s) = [(1, 0), (1, 1)] \<and>
     time_span s = Some 7"
    by (simp add: queue_eval)
  then obtain s' where e': "exec ?A (queue_task ?A) 
     [Main, Main, Main, Worker 0, Main, Worker 1, Worker 1, Main, Worker 1, Worker 1, Worker 1,
      Worker 2, Tick 7, Worker 2, Worker 2, Worker 2, Worker 2, Worker 0, Worker 0, Worker 0,
      Worker 1, Worker 1, Worker 1, Worker 1, Worker 0, Worker 1, Worker 0, Worker 0, Worker 0,
      Worker 0, Worker 1, Worker 0, Worker 1, Worker 1, Worker 1, Worker 1, Worker 2, Worker 2,
      Worker 2, Worker 2, Worker 2, Worker 1, Worker 2, Worker 2, Worker 1, Worker 1, Worker 1,
      Worker 1, Worker 1, Worker 1, Worker 1, Worker 2, Worker 0, Worker 0, Main, Main, Main,
      Main, Main]
    
     (init_sys queue_init) = Some s'" and ret': "returned s'"
    and p': "popped (shared s') = [(1, 0), (1, 1)]" and t': "time_span s' = Some 7" by blast
  from reach_exec [OF reach_init e] have r: "run_queue_test ?A s"
    by (simp add: run_queue_test_def)
  from reach_exec [OF reach_init e'] have r': "run_queue_test ?A s'"
    by (simp add: run_queue_test_def)
  have "sum_acc (shared s) = sum_acc (shared s') \<and> count_acc (shared s) = count_acc (shared s')"
    using same_arguments_same_results [of ?A lcg] r ret r' ret' by blast
  moreover have "popped (shared s) \<noteq> popped (shared s')" using p p' by simp
  moreover have "time_span s \<noteq> time_span s'" using t t' by simp
  ultimately show ?thesis using r ret r' ret' by blast
qed

end
